theory Spec2Isabelle
  imports
    Complex_Main
    "HOL-Library.Word"
    "HOL-Library.AList"
    "HOL-Library.Multiset"
    "HOL-Library.Char_ord"
    "HOL-Library.List_Lexorder"
begin

text \<open>
  The program runs a set of checks on a Go source tree before a commit. Two versions of it
  are modelled: the current one, made of the scheduler of the main package
  (\<^verbatim>\<open>getConfig\<close>, \<^verbatim>\<open>EnabledChecks\<close>, \<^verbatim>\<open>run\<close>) and of the checks of
  the package \<^verbatim>\<open>checks\<close>, and the older single file \<^verbatim>\<open>pre-commit-go.go\<close>, from
  which the helpers \<^verbatim>\<open>captureWd\<close>, \<^verbatim>\<open>reverse\<close> and \<^verbatim>\<open>rsplitn\<close> are taken
  and whose coverage check differs at its end. What the program gets from outside (the
  processes it starts, the file system, the clock, the order in which goroutines finish) is
  an argument of the functions below.
\<close>

section \<open>Go values, errors and processes\<close>

text \<open>
  Go's \<^verbatim>\<open>int\<close> (taken at its 64-bit width) and \<^verbatim>\<open>int64\<close>
  (\<^verbatim>\<open>time.Duration\<close>, nanoseconds) are 64-bit words: \<open>+\<close> and \<open>*\<close> wrap
  around, \<open>sint\<close> reads the signed value and \<open><s\<close> is the signed comparison.
  A Go string is the list of its characters; the text handled here is the output of the
  Go tools, so one \<open>char\<close> stands for one rune of valid UTF-8 text.
\<close>

type_synonym int64 = "64 word"

text \<open>
  A \<^verbatim>\<open>float64\<close>: its finite values are rationals, and the comparison
  \<^verbatim>\<open><\<close> is false as soon as one side is NaN.
\<close>

datatype float64 = Finite rat | PosInf | NegInf | NaN

fun float_less :: "float64 \<Rightarrow> float64 \<Rightarrow> bool" where
  "float_less NaN _ = False"
| "float_less _ NaN = False"
| "float_less (Finite a) (Finite b) = (a < b)"
| "float_less (Finite a) PosInf = True"
| "float_less (Finite a) NegInf = False"
| "float_less PosInf _ = False"
| "float_less NegInf NegInf = False"
| "float_less NegInf _ = True"

datatype num_err = ErrSyntax | ErrRange

text \<open>
  The error values the program builds (\<^verbatim>\<open>fmt.Errorf\<close>, \<^verbatim>\<open>errors.New\<close>),
  by their format and arguments, and \<open>OSError\<close> for an error handed back by the
  operating system or a library (open, create, glob, exec, ...).
\<close>

datatype error =
    NumError string num_err
  | OSError string
  | TestFailed string string
  | NoCoverageFound
  | MalformedCoverage
  | CoverageTooLow float64 nat
  | CheckTook string int64
  | ChecksFailed int64
  | ImproperlyFormatted string string
  | ToolFailed string error
  | Complaints string

text \<open>A run-time panic ends the program; it is not an error value.\<close>

datatype panic = IndexOutOfRange | SliceOutOfRange | ExplicitPanic string

datatype failure = Return error | Crash panic

text \<open>
  What an external command did: it could not be started (\<^verbatim>\<open>ProcessState\<close> is
  nil, nothing was captured), or it ran and left its combined output, its exit code and the
  error \<^verbatim>\<open>CombinedOutput\<close> returned.
\<close>

datatype proc = LaunchFailed error | Exited string int "error option"

text \<open>\<^verbatim>\<open>captureWd\<close>: the output, the exit code and the error, which is dropped
  when the exit code is not zero.\<close>

fun captureWd :: "proc \<Rightarrow> string \<times> int \<times> error option" where
  "captureWd (LaunchFailed e) = ([], -1, Some e)"
| "captureWd (Exited out exitCode err) = (out, exitCode, if exitCode \<noteq> 0 then None else err)"

definition capture :: "proc \<Rightarrow> string \<times> int \<times> error option" where
  "capture p = captureWd p"

section \<open>Strings\<close>

text \<open>\<^verbatim>\<open>reverse\<close>: the runes are written into the array from its end.\<close>

definition reverse :: "string \<Rightarrow> string" where
  "reverse s = foldl (\<lambda>runes r. r # runes) [] s"

text \<open>
  \<^verbatim>\<open>strings.SplitN(s, sep, n)\<close> for a separator of one character (every call
  site passes one): \<open>n = 0\<close> gives nothing, \<open>n < 0\<close> all the fields, \<open>n > 0\<close> at
  most \<open>n\<close> fields, the last one the unsplit rest.
\<close>

fun split_all :: "char \<Rightarrow> string \<Rightarrow> string list" where
  "split_all sep [] = [[]]"
| "split_all sep (c # s) =
     (if c = sep then [] # split_all sep s
      else (case split_all sep s of [] \<Rightarrow> [[c]] | x # xs \<Rightarrow> (c # x) # xs))"

fun split_most :: "nat \<Rightarrow> char \<Rightarrow> string \<Rightarrow> string list" where
  "split_most 0 sep s = []"
| "split_most (Suc 0) sep s = [s]"
| "split_most (Suc (Suc k)) sep [] = [[]]"
| "split_most (Suc (Suc k)) sep (c # s) =
     (if c = sep then [] # split_most (Suc k) sep s
      else (case split_most (Suc (Suc k)) sep s of [] \<Rightarrow> [[c]] | x # xs \<Rightarrow> (c # x) # xs))"

definition SplitN :: "string \<Rightarrow> char \<Rightarrow> int \<Rightarrow> string list" where
  "SplitN s sep n = (if n < 0 then split_all sep s else split_most (nat n) sep s)"

definition Split :: "string \<Rightarrow> char \<Rightarrow> string list" where
  "Split s sep = SplitN s sep (-1)"

text \<open>\<^verbatim>\<open>rsplitn\<close>: split the reversed string, then reverse the list and each
  item in place, swapping from both ends; the middle item of an odd list is reversed alone.\<close>

fun rsplitn_swap :: "nat \<Rightarrow> nat \<Rightarrow> string list \<Rightarrow> string list" where
  "rsplitn_swap 0 i items = items"
| "rsplitn_swap (Suc k) i items =
     (let j = length items - i - 1
      in rsplitn_swap k (Suc i) (items[i := reverse (items ! j), j := reverse (items ! i)]))"

definition rsplitn :: "string \<Rightarrow> char \<Rightarrow> int \<Rightarrow> string list" where
  "rsplitn s sep n =
     (let items = SplitN (reverse s) sep n;
          l = length items;
          items = rsplitn_swap (l div 2) 0 items
      in if odd l then items[l div 2 := reverse (items ! (l div 2))] else items)"

text \<open>\<^verbatim>\<open>strings.TrimLeft(s, "\t")\<close> and \<^verbatim>\<open>strings.Contains\<close>.\<close>

definition TrimLeft :: "string \<Rightarrow> char \<Rightarrow> string" where
  "TrimLeft s c = dropWhile (\<lambda>x. x = c) s"

fun has_prefix :: "string \<Rightarrow> string \<Rightarrow> bool" where
  "has_prefix s [] = True"
| "has_prefix [] (b # bs) = False"
| "has_prefix (a # as) (b # bs) = (a = b \<and> has_prefix as bs)"

fun Contains :: "string \<Rightarrow> string \<Rightarrow> bool" where
  "Contains [] sub = (sub = [])"
| "Contains (c # s) sub = (has_prefix (c # s) sub \<or> Contains s sub)"

section \<open>strconv.Atoi\<close>

definition digit_of :: "char \<Rightarrow> int option" where
  "digit_of c = (let n = (of_char c :: int) in if 48 \<le> n \<and> n \<le> 57 then Some (n - 48) else None)"

text \<open>\<^verbatim>\<open>ParseUint\<close> in base 10 on 64 bits: the digits are read from the left;
  the first character that is no digit is a syntax error, the first overflow a range
  error.\<close>

fun ParseUint_loop :: "int \<Rightarrow> string \<Rightarrow> num_err + int" where
  "ParseUint_loop n [] = Inr n"
| "ParseUint_loop n (d # s) =
     (case digit_of d of
        None \<Rightarrow> Inl ErrSyntax
      | Some v \<Rightarrow>
          if n \<ge> (2 ^ 64 - 1) div 10 + 1 then Inl ErrRange
          else if n * 10 + v > 2 ^ 64 - 1 then Inl ErrRange
          else ParseUint_loop (n * 10 + v) s)"

definition ParseUint :: "string \<Rightarrow> num_err + int" where
  "ParseUint s = (if s = [] then Inl ErrSyntax else ParseUint_loop 0 s)"

text \<open>\<^verbatim>\<open>ParseInt(s, 10, 0)\<close>: an optional sign, then the digits; the value must
  lie in \<open>-2^63 .. 2^63 - 1\<close>.\<close>

definition ParseInt :: "string \<Rightarrow> num_err + int" where
  "ParseInt s =
     (case s of
        [] \<Rightarrow> Inl ErrSyntax
      | c # r \<Rightarrow>
          (let neg = (c = CHR ''-'');
               body = (if c = CHR ''+'' \<or> c = CHR ''-'' then r else s)
           in case ParseUint body of
                Inl ErrSyntax \<Rightarrow> Inl ErrSyntax
              | Inl ErrRange \<Rightarrow> Inl ErrRange
              | Inr un \<Rightarrow>
                  if \<not> neg \<and> un \<ge> 2 ^ 63 then Inl ErrRange
                  else if neg \<and> un > 2 ^ 63 then Inl ErrRange
                  else Inr (if neg then - un else un)))"

definition Atoi :: "string \<Rightarrow> error + int64" where
  "Atoi s = (case ParseInt s of Inl e \<Rightarrow> Inl (NumError s e) | Inr i \<Rightarrow> Inr (word_of_int i))"

section \<open>The coverage check: merging the profiles\<close>

text \<open>
  \<^verbatim>\<open>counts := map[string]int{}\<close> is an association list with one entry per key;
  \<open>map_of\<close> reads it. \<^verbatim>\<open>counts[k] += c\<close> starts from the zero value when the
  key is new.
\<close>

type_synonym counts = "(string \<times> int64) list"

definition add_count :: "counts \<Rightarrow> string \<Rightarrow> int64 \<Rightarrow> counts" where
  "add_count cs k c = AList.update k ((case map_of cs k of None \<Rightarrow> 0 | Some v \<Rightarrow> v) + c) cs"

text \<open>The loop over the lines of one profile (\<^verbatim>\<open>for s.Scan()\<close>):
  \<^verbatim>\<open>items[1]\<close> panics when the line has no space.\<close>

fun merge_lines :: "counts \<Rightarrow> string list \<Rightarrow> failure + counts" where
  "merge_lines cs [] = Inr cs"
| "merge_lines cs (line # rest) =
     (let items = rsplitn line (CHR '' '') 2
      in if length items < 2 then Inl (Crash IndexOutOfRange)
         else (case Atoi (items ! 1) of
                 Inl e \<Rightarrow> Inl (Return e)
               | Inr c \<Rightarrow> merge_lines (add_count cs (items ! 0) c) rest))"

text \<open>
  A profile file is the result of \<^verbatim>\<open>os.Open\<close> and, when it opened, the lines the
  scanner yields. The first line is skipped.
\<close>

type_synonym profile_file = "error + string list"

fun merge_files :: "counts \<Rightarrow> profile_file list \<Rightarrow> failure + counts" where
  "merge_files cs [] = Inr cs"
| "merge_files cs (Inl e # files) = Inl (Return e)"
| "merge_files cs (Inr lines # files) =
     (case merge_lines cs (drop 1 lines) of
        Inl x \<Rightarrow> Inl x
      | Inr cs' \<Rightarrow> merge_files cs' files)"

text \<open>
  To state what the merge computes, a profile is also read as a list of entries,
  independently of the merge and of \<^verbatim>\<open>rsplitn\<close>: the key of a line is the line up
  to its last space, its count the integer after it; \<open>count_in f k\<close> is the count of the
  key \<open>k\<close> in the profile \<open>f\<close> (the sum over its lines, should a key come twice).
\<close>

definition last_space_split :: "string \<Rightarrow> (string \<times> string) option" where
  "last_space_split line =
     (if CHR '' '' \<in> set line
      then Some (rev (drop 1 (dropWhile (\<lambda>c. c \<noteq> CHR '' '') (rev line))),
                 rev (takeWhile (\<lambda>c. c \<noteq> CHR '' '') (rev line)))
      else None)"

definition line_entry :: "string \<Rightarrow> (string \<times> int64) option" where
  "line_entry line =
     (case last_space_split line of
        None \<Rightarrow> None
      | Some (k, field) \<Rightarrow> (case Atoi field of Inl e \<Rightarrow> None | Inr c \<Rightarrow> Some (k, c)))"

definition profile_entries :: "profile_file \<Rightarrow> (string \<times> int64) list" where
  "profile_entries f =
     (case f of Inl e \<Rightarrow> [] | Inr lines \<Rightarrow> List.map_filter line_entry (drop 1 lines))"

definition count_in :: "profile_file \<Rightarrow> string \<Rightarrow> int64" where
  "count_in f k = sum_list (map snd (filter (\<lambda>e. fst e = k) (profile_entries f)))"

definition has_key :: "profile_file \<Rightarrow> string \<Rightarrow> bool" where
  "has_key f k = (k \<in> fst ` set (profile_entries f))"

text \<open>The entries added to the map one after the other.\<close>

definition add_entries :: "counts \<Rightarrow> (string \<times> int64) list \<Rightarrow> counts" where
  "add_entries cs es = foldl (\<lambda>cs e. add_count cs (fst e) (snd e)) cs es"

text \<open>The files that open and whose lines all split and parse: the merge reads them to
  the end.\<close>

definition file_ok :: "profile_file \<Rightarrow> bool" where
  "file_ok f =
     (case f of Inl e \<Rightarrow> False | Inr lines \<Rightarrow> list_all (\<lambda>l. line_entry l \<noteq> None) (drop 1 lines))"

section \<open>The coverage check: writing the merged profile\<close>

text \<open>\<^verbatim>\<open>counts[stm]\<close> read from the map, and \<^verbatim>\<open>%d\<close>.\<close>

definition lookup_count :: "counts \<Rightarrow> string \<Rightarrow> int64" where
  "lookup_count cs k = (case map_of cs k of None \<Rightarrow> 0 | Some v \<Rightarrow> v)"

function decimal :: "int \<Rightarrow> string" where
  "decimal n =
     (if n < 10 then [char_of (48 + n)]
      else decimal (n div 10) @ [char_of (48 + n mod 10)])"
  by pat_completeness auto
termination
  by (relation "measure nat") auto

definition format_int :: "int64 \<Rightarrow> string" where
  "format_int c = (if sint c < 0 then CHR ''-'' # decimal (- sint c) else decimal (sint c))"

text \<open>The keys are collected from the map and sorted; the header comes first, then one
  line per key.\<close>

definition emit_profile :: "counts \<Rightarrow> string list" where
  "emit_profile cs =
     ''mode: count'' #
     map (\<lambda>stm. stm @ '' '' @ format_int (lookup_count cs stm)) (sort (map fst cs))"

section \<open>The coverage check: reading the summary\<close>

text \<open>
  The loop over the lines of \<^verbatim>\<open>go tool cover -func\<close>, the first line apart. The
  state is \<^verbatim>\<open>total\<close> and the map \<^verbatim>\<open>coverage\<close>.
  \<^verbatim>\<open>strconv.ParseFloat\<close> is a parameter \<open>pf\<close>; \<open>bad\<close> is what a percentage that
  does not parse leads to (an error returned by the current check, a panic in the older
  one).
\<close>

type_synonym summary = "float64 \<times> ((string \<times> string) \<times> float64) list"

definition summary_line ::
  "(string \<Rightarrow> error + float64) \<Rightarrow> failure \<Rightarrow> summary \<Rightarrow> string \<Rightarrow> failure + summary" where
  "summary_line pf bad st line =
     (if length line = 0 then Inr st
      else
        (let items = SplitN line (CHR 0x09) 2;
             loc = items ! 0
         in if length items = 1 then Inl (Crash (ExplicitPanic line))
            else
              (let items = SplitN (TrimLeft (items ! 1) (CHR 0x09)) (CHR 0x09) 2;
                   name = items ! 0
               in if length items < 2 then Inl (Crash IndexOutOfRange)
                  else
                    (let percentStr = TrimLeft (items ! 1) (CHR 0x09)
                     in if length percentStr = 0 then Inl (Crash SliceOutOfRange)
                        else
                          (case pf (take (length percentStr - 1) percentStr) of
                             Inl e \<Rightarrow> Inl bad
                           | Inr percent \<Rightarrow>
                               if loc = ''total:'' then Inr (percent, snd st)
                               else Inr (fst st, AList.update (loc, name) percent (snd st)))))))"

fun summary_lines ::
  "(string \<Rightarrow> error + float64) \<Rightarrow> failure \<Rightarrow> summary \<Rightarrow> string list \<Rightarrow> failure + summary" where
  "summary_lines pf bad st [] = Inr st"
| "summary_lines pf bad st (line # rest) =
     (case summary_line pf bad st line of
        Inl x \<Rightarrow> Inl x
      | Inr st' \<Rightarrow> summary_lines pf bad st' rest)"

definition parse_summary ::
  "(string \<Rightarrow> error + float64) \<Rightarrow> failure \<Rightarrow> string \<Rightarrow> failure + summary" where
  "parse_summary pf bad out = summary_lines pf bad (Finite 0, []) (drop 1 (Split out (CHR 0x0A)))"

text \<open>\<^verbatim>\<open>if total < minimum\<close>: the error counts the functions below 100 percent.\<close>

definition threshold :: "float64 \<Rightarrow> summary \<Rightarrow> error option" where
  "threshold minimum st =
     (if float_less (fst st) minimum
      then Some (CoverageTooLow (fst st)
                   (length (filter (\<lambda>kv. float_less (snd kv) (Finite 100)) (snd st))))
      else None)"

section \<open>The coverage check: the run\<close>

text \<open>
  Everything the check asks of its surroundings: the package path, the test directories
  with what \<^verbatim>\<open>go test\<close> did in each (listed in the order in which their goroutines
  finish), the temporary directory, the profile files the glob finds, the creation of
  the merged profile, the tools run on the merged profile, the environment variable and
  the removal of the temporary directory.
\<close>

record env =
  relToGOPATH :: "error + string"
  tests :: "(string \<times> proc) list"
  TempDir :: "error + string"
  Glob :: "error + profile_file list"
  Create :: "error option"
  cover :: "string list \<Rightarrow> proc"
  TRAVIS_JOB_ID :: string
  goveralls :: "string list \<Rightarrow> proc"
  RemoveAll :: "error option"

datatype outcome = Returns "error option" | Panics panic

text \<open>The goroutines of the fan-out: a test run whose exit code is not zero sends its
  error on \<^verbatim>\<open>errs\<close>, whose capacity is the number of directories.\<close>

definition fan_out :: "(string \<times> proc) list \<Rightarrow> error list" where
  "fan_out ts =
     List.map_filter
       (\<lambda>t. case captureWd (snd t) of
               (out, exitCode, _) \<Rightarrow> if exitCode \<noteq> 0 then Some (TestFailed (fst t) out) else None)
       ts"

text \<open>\<^verbatim>\<open>select { case err = <-errs: default: }\<close>\<close>

definition receive :: "error list \<Rightarrow> error option" where
  "receive errs = (case errs of [] \<Rightarrow> None | e # _ \<Rightarrow> Some e)"

text \<open>The deferred function of the current check: the error of the removal becomes the
  result when there is no other.\<close>

definition deferred_remove :: "env \<Rightarrow> outcome \<Rightarrow> outcome" where
  "deferred_remove w r = (case r of Returns None \<Rightarrow> Returns (RemoveAll w) | _ \<Rightarrow> r)"

text \<open>The end of the current check, from the summary on: the threshold, then a queued test
  failure, then the upload.\<close>

definition analyze ::
  "env \<Rightarrow> float64 \<Rightarrow> (string \<Rightarrow> error + float64) \<Rightarrow> error list \<Rightarrow> string list \<Rightarrow> outcome" where
  "analyze w minimum pf errs profile =
     (case capture (cover w profile) of
        (out, _, err2) \<Rightarrow>
          (case parse_summary pf (Return MalformedCoverage) out of
             Inl (Return e) \<Rightarrow> Returns (Some e)
           | Inl (Crash p) \<Rightarrow> Panics p
           | Inr st \<Rightarrow>
               (let err2 = (case threshold minimum st of Some e \<Rightarrow> Some e | None \<Rightarrow> err2);
                    err2 = (if err2 = None then receive errs else err2)
                in if length (TRAVIS_JOB_ID w) \<noteq> 0
                   then (case capture (goveralls w profile) of
                           (out, _, err3) \<Rightarrow> Returns (if err2 = None then err3 else err2))
                   else Returns err2)))"

text \<open>The part both versions share, after the temporary directory exists: the glob, the
  merge and the creation of the merged profile; \<open>rest\<close> is what follows.\<close>

definition merge_and_emit :: "env \<Rightarrow> error list \<Rightarrow> (string list \<Rightarrow> outcome) \<Rightarrow> outcome" where
  "merge_and_emit w errs rest =
     (case Glob w of
        Inl e \<Rightarrow> Returns (Some e)
      | Inr files \<Rightarrow>
          if length files = 0
          then (case receive errs of Some e \<Rightarrow> Returns (Some e) | None \<Rightarrow> Returns (Some NoCoverageFound))
          else
            (case merge_files [] files of
               Inl (Return e) \<Rightarrow> Returns (Some e)
             | Inl (Crash p) \<Rightarrow> Panics p
             | Inr counts \<Rightarrow>
                 (case Create w of
                    Some e \<Rightarrow> Returns (Some e)
                  | None \<Rightarrow> rest (emit_profile counts))))"

text \<open>\<^verbatim>\<open>TestCoverage.run\<close> of the package \<^verbatim>\<open>checks\<close>.\<close>

definition TestCoverage_run :: "env \<Rightarrow> float64 \<Rightarrow> (string \<Rightarrow> error + float64) \<Rightarrow> outcome" where
  "TestCoverage_run w minimum pf =
     (case relToGOPATH w of
        Inl e \<Rightarrow> Returns (Some e)
      | Inr pkg \<Rightarrow>
          if length (tests w) = 0 then Returns None
          else
            (case TempDir w of
               Inl e \<Rightarrow> Returns (Some e)
             | Inr tmpDir \<Rightarrow>
                 deferred_remove w
                   (let errs = fan_out (tests w)
                    in merge_and_emit w errs (analyze w minimum pf errs))))"

text \<open>\<^verbatim>\<open>TestCoverage.run\<close> of the older \<^verbatim>\<open>pre-commit-go.go\<close>: the upload
  replaces the summary, a percentage that does not parse is a panic, and the removal's error
  is dropped.\<close>

definition analyze_old ::
  "env \<Rightarrow> float64 \<Rightarrow> (string \<Rightarrow> error + float64) \<Rightarrow> error list \<Rightarrow> string list \<Rightarrow> outcome" where
  "analyze_old w minimum pf errs profile =
     (if length (TRAVIS_JOB_ID w) \<noteq> 0
      then (case capture (goveralls w profile) of
              (out, _, err) \<Rightarrow> Returns (if err = None then receive errs else err))
      else (case capture (cover w profile) of
              (out, _, err) \<Rightarrow>
                (case parse_summary pf (Crash (ExplicitPanic ''internal failure'')) out of
                   Inl (Return e) \<Rightarrow> Returns (Some e)
                 | Inl (Crash p) \<Rightarrow> Panics p
                 | Inr st \<Rightarrow>
                     (let err = (case threshold minimum st of Some e \<Rightarrow> Some e | None \<Rightarrow> err)
                      in Returns (if err = None then receive errs else err)))))"

definition TestCoverage_run_old :: "env \<Rightarrow> float64 \<Rightarrow> (string \<Rightarrow> error + float64) \<Rightarrow> outcome" where
  "TestCoverage_run_old w minimum pf =
     (case relToGOPATH w of
        Inl e \<Rightarrow> Returns (Some e)
      | Inr pkg \<Rightarrow>
          if length (tests w) = 0 then Returns None
          else
            (case TempDir w of
               Inl e \<Rightarrow> Returns (Some e)
             | Inr tmpDir \<Rightarrow>
                 (let errs = fan_out (tests w)
                  in merge_and_emit w errs (analyze_old w minimum pf errs))))"

section \<open>The checks that wrap one tool\<close>

text \<open>\<^verbatim>\<open>strings.Join\<close>\<close>

fun Join :: "string list \<Rightarrow> string \<Rightarrow> string" where
  "Join [] sep = []"
| "Join [a] sep = a"
| "Join (a # b # rest) sep = a @ sep @ Join (b # rest) sep"

text \<open>\<^verbatim>\<open>Gofmt.run\<close> and \<^verbatim>\<open>Goimports.run\<close>: any output fails the check, then
  the error of the capture does; the exit code is not looked at.\<close>

definition Gofmt_run :: "proc \<Rightarrow> error option" where
  "Gofmt_run p =
     (case capture p of
        (out, _, err) \<Rightarrow>
          if length out \<noteq> 0 then Some (ImproperlyFormatted ''gofmt -w -s .'' out)
          else (case err of
                  Some e \<Rightarrow> Some (ToolFailed ''gofmt -l -s .'' e)
                | None \<Rightarrow> None))"

definition Goimports_run :: "proc \<Rightarrow> error option" where
  "Goimports_run p =
     (case capture p of
        (out, _, err) \<Rightarrow>
          if length out \<noteq> 0 then Some (ImproperlyFormatted ''goimports -w .'' out)
          else (case err of
                  Some e \<Rightarrow> Some (ToolFailed ''goimports -w .'' e)
                | None \<Rightarrow> None))"

text \<open>
  \<^verbatim>\<open>Golint.run\<close> and \<^verbatim>\<open>Govet.run\<close>. The inner loop over the blacklist only
  \<^verbatim>\<open>continue\<close>s itself: whatever it finds, the line is appended after it. The error
  is returned when the result is empty.
\<close>

fun blacklist_loop :: "string \<Rightarrow> string list \<Rightarrow> unit" where
  "blacklist_loop line [] = ()"
| "blacklist_loop line (b # bs) =
     (if Contains line b then blacklist_loop line bs else blacklist_loop line bs)"

fun lint_lines :: "string list \<Rightarrow> string list \<Rightarrow> string list \<Rightarrow> string list" where
  "lint_lines blacklist result [] = result"
| "lint_lines blacklist result (line # rest) =
     (let u = blacklist_loop line blacklist
      in lint_lines blacklist (result @ [line]) rest)"

definition Golint_run :: "string list \<Rightarrow> proc \<Rightarrow> error option" where
  "Golint_run blacklist p =
     (case capture p of
        (out, _, _) \<Rightarrow>
          (let result = lint_lines blacklist [] (Split out (CHR 0x0A))
           in if length result = 0 then Some (Complaints (Join result [CHR 0x0A])) else None))"

definition Govet_run :: "string list \<Rightarrow> proc \<Rightarrow> error option" where
  "Govet_run blacklist p =
     (case capture p of
        (out, _, _) \<Rightarrow>
          (let result = lint_lines blacklist [] (Split out (CHR 0x0A))
           in if length result = 0 then Some (Complaints (Join result [CHR 0x0A])) else None))"

section \<open>The configuration and the enabled checks\<close>

record CheckCommon =
  RunLevel :: int
  MaxDuration :: int64

record CustomCheck =
  Common :: CheckCommon
  Name :: string

text \<open>A check as the scheduler sees it through the interface \<^verbatim>\<open>checks.Check\<close>.\<close>

record check =
  GetName :: string
  GetRunLevel :: int
  GetMaxDuration :: int64

record Config =
  ConfigMaxDuration :: int64
  BuildOnly :: CheckCommon
  Gofmt :: CheckCommon
  Test :: CheckCommon
  Errcheck :: CheckCommon
  Goimports :: CheckCommon
  Golint :: CheckCommon
  Govet :: CheckCommon
  TestCoverage :: CheckCommon
  CustomChecks :: "CustomCheck list"

definition Check :: "string \<Rightarrow> CheckCommon \<Rightarrow> check" where
  "Check n c = \<lparr>GetName = n, GetRunLevel = RunLevel c, GetMaxDuration = MaxDuration c\<rparr>"

definition AllChecks :: "Config \<Rightarrow> check list" where
  "AllChecks c =
     [Check ''build'' (BuildOnly c),
      Check ''gofmt'' (Gofmt c),
      Check ''test'' (Test c),
      Check ''errcheck'' (Errcheck c),
      Check ''goimports'' (Goimports c),
      Check ''golint'' (Golint c),
      Check ''govet'' (Govet c),
      Check ''testcoverage'' (TestCoverage c)]
     @ map (\<lambda>k. Check (Name k) (Common k)) (CustomChecks c)"

definition EnabledChecks :: "Config \<Rightarrow> int \<Rightarrow> check list" where
  "EnabledChecks c runLevel = filter (\<lambda>k. GetRunLevel k \<le> runLevel) (AllChecks c)"

text \<open>The configuration after \<^verbatim>\<open>ResetDefault\<close> on every check.\<close>

definition default_config :: Config where
  "default_config =
     \<lparr>ConfigMaxDuration = 120,
      BuildOnly = \<lparr>RunLevel = 1, MaxDuration = 0\<rparr>,
      Gofmt = \<lparr>RunLevel = 1, MaxDuration = 0\<rparr>,
      Test = \<lparr>RunLevel = 1, MaxDuration = 0\<rparr>,
      Errcheck = \<lparr>RunLevel = 2, MaxDuration = 0\<rparr>,
      Goimports = \<lparr>RunLevel = 2, MaxDuration = 0\<rparr>,
      Golint = \<lparr>RunLevel = 3, MaxDuration = 0\<rparr>,
      Govet = \<lparr>RunLevel = 3, MaxDuration = 0\<rparr>,
      TestCoverage = \<lparr>RunLevel = 2, MaxDuration = 0\<rparr>,
      CustomChecks = []\<rparr>"

text \<open>A configuration where only gofmt runs at level 1, with one second for it.\<close>

definition gofmt_only :: Config where
  "gofmt_only =
     \<lparr>ConfigMaxDuration = 120,
      BuildOnly = \<lparr>RunLevel = 2, MaxDuration = 0\<rparr>,
      Gofmt = \<lparr>RunLevel = 1, MaxDuration = 1\<rparr>,
      Test = \<lparr>RunLevel = 2, MaxDuration = 0\<rparr>,
      Errcheck = \<lparr>RunLevel = 2, MaxDuration = 0\<rparr>,
      Goimports = \<lparr>RunLevel = 2, MaxDuration = 0\<rparr>,
      Golint = \<lparr>RunLevel = 3, MaxDuration = 0\<rparr>,
      Govet = \<lparr>RunLevel = 3, MaxDuration = 0\<rparr>,
      TestCoverage = \<lparr>RunLevel = 2, MaxDuration = 0\<rparr>,
      CustomChecks = []\<rparr>"

section \<open>The scheduler\<close>

text \<open>
  One goroutine per enabled check. \<open>r\<close> is what \<^verbatim>\<open>check.Run()\<close> returned and the
  time it took, in nanoseconds. The goroutine sends the error of the check, if any, and
  then an error of its own when the time is over
  \<^verbatim>\<open>time.Duration(max) * time.Second\<close>.
\<close>

definition budget :: "int64 \<Rightarrow> check \<Rightarrow> int64" where
  "budget configMax c =
     (let max = GetMaxDuration c;
          max = (if max = 0 then configMax else max)
      in max * 1000000000)"

definition task_sends :: "int64 \<Rightarrow> check \<Rightarrow> error option \<times> int64 \<Rightarrow> error list" where
  "task_sends configMax c r =
     (case fst r of None \<Rightarrow> [] | Some e \<Rightarrow> [e])
     @ (if budget configMax c <s snd r then [CheckTook (GetName c) (snd r)] else [])"

text \<open>
  The goroutines and the channel \<^verbatim>\<open>errs\<close> before \<^verbatim>\<open>wg.Wait()\<close> returns: each
  goroutine is the list of the sends it still has to do, the channel is its buffer. Nothing
  receives before the wait is over, so a send goes through only while the buffer has room,
  and any goroutine with a send left may be the next to move.
\<close>

inductive send_step :: "nat \<Rightarrow> error list list \<times> error list \<Rightarrow> error list list \<times> error list \<Rightarrow> bool"
  for capacity :: nat where
  send: "i < length tasks \<Longrightarrow> tasks ! i = e # es \<Longrightarrow> length buffer < capacity \<Longrightarrow>
           send_step capacity (tasks, buffer) (tasks[i := es], buffer @ [e])"

text \<open>\<^verbatim>\<open>wg.Wait()\<close> returns once every goroutine has done all its sends. A goroutine
  with a send left and a full buffer is blocked, for good.\<close>

definition all_done :: "error list list \<Rightarrow> bool" where
  "all_done tasks = list_all (\<lambda>t. t = []) tasks"

definition blocked :: "nat \<Rightarrow> error list list \<times> error list \<Rightarrow> bool" where
  "blocked capacity st = (\<not> all_done (fst st) \<and> length (snd st) \<ge> capacity)"

text \<open>The loop that empties the channel: \<^verbatim>\<open>err\<close> keeps the last error received,
  each one is printed.\<close>

fun drain :: "error option \<Rightarrow> error list \<Rightarrow> error list \<Rightarrow> error list \<times> error option" where
  "drain err printed [] = (printed, err)"
| "drain err printed (e # buffer) = drain (Some e) (printed @ [e]) buffer"

definition finish :: "int64 \<Rightarrow> error list \<Rightarrow> error list \<times> error option" where
  "finish duration buffer =
     (case drain None [] buffer of
        (printed, err) \<Rightarrow> (printed, if err \<noteq> None then Some (ChecksFailed duration) else err))"

text \<open>
  \<^verbatim>\<open>run\<close>: \<open>results i\<close> is what the \<open>i\<close>-th enabled check did and \<open>duration\<close>
  the time of the whole run. A run returns what it printed and its error; a run whose
  goroutines get blocked never returns.
\<close>

definition start :: "Config \<Rightarrow> int \<Rightarrow> (nat \<Rightarrow> error option \<times> int64) \<Rightarrow> error list list \<times> error list" where
  "start config runLevel results =
     (let enabledChecks = EnabledChecks config runLevel
      in (map (\<lambda>i. task_sends (ConfigMaxDuration config) (enabledChecks ! i) (results i))
            [0 ..< length enabledChecks],
          []))"

inductive run_returns ::
  "Config \<Rightarrow> int \<Rightarrow> (nat \<Rightarrow> error option \<times> int64) \<Rightarrow> int64 \<Rightarrow> error list \<times> error option \<Rightarrow> bool" where
  returns: "(send_step (length (EnabledChecks config runLevel)))\<^sup>*\<^sup>*
              (start config runLevel results) (tasks, buffer) \<Longrightarrow>
            all_done tasks \<Longrightarrow>
            run_returns config runLevel results duration (finish duration buffer)"

inductive run_blocks :: "Config \<Rightarrow> int \<Rightarrow> (nat \<Rightarrow> error option \<times> int64) \<Rightarrow> bool" where
  blocks: "(send_step (length (EnabledChecks config runLevel)))\<^sup>*\<^sup>*
             (start config runLevel results) st \<Longrightarrow>
           blocked (length (EnabledChecks config runLevel)) st \<Longrightarrow>
           run_blocks config runLevel results"

section \<open>The first error present\<close>

text \<open>The first error of a list of possible errors, in the order of the list.\<close>

fun first_present :: "error option list \<Rightarrow> error option" where
  "first_present [] = None"
| "first_present (None # rest) = first_present rest"
| "first_present (Some e # rest) = Some e"

section \<open>Sample inputs\<close>

text \<open>
  A summary as \<^verbatim>\<open>go tool cover -func\<close> prints it, a stand-in for
  \<^verbatim>\<open>strconv.ParseFloat\<close> on the percentages of this summary, and surroundings in which
  one directory is tested, its tests pass, one profile is found and every step works.
\<close>

definition sample_summary :: string where
  "sample_summary =
     ''a.go:1:'' @ [CHR 0x09] @ ''F'' @ [CHR 0x09] @ ''50.0%'' @ [CHR 0x0A]
     @ ''b.go:2:'' @ [CHR 0x09] @ ''G'' @ [CHR 0x09] @ ''50.0%'' @ [CHR 0x0A]
     @ ''total:'' @ [CHR 0x09] @ ''(statements)'' @ [CHR 0x09] @ ''19.9%'' @ [CHR 0x0A]"

definition sample_ParseFloat :: "string \<Rightarrow> error + float64" where
  "sample_ParseFloat s =
     (if s = ''19.9'' then Inr (Finite (199 / 10))
      else if s = ''50.0'' then Inr (Finite 50)
      else Inl (NumError s ErrSyntax))"

definition sample_env :: env where
  "sample_env =
     \<lparr>relToGOPATH = Inr ''example.com/pkg'',
      tests = [(''/src/pkg'', Exited ''PASS'' 0 None)],
      TempDir = Inr ''/tmp/pre-commit-go1'',
      Glob = Inr [Inr [''mode: count'', ''a.go:1.1,1.5 2 3'']],
      Create = None,
      cover = (\<lambda>profile. Exited sample_summary 0 None),
      TRAVIS_JOB_ID = [],
      goveralls = (\<lambda>profile. Exited [] 0 None),
      RemoveAll = None\<rparr>"

section \<open>Properties: splitting a line\<close>

lemma reverse_rev: "reverse s = rev s"
proof -
  have "foldl (\<lambda>runes r. r # runes) acc s = rev s @ acc" for acc
    by (induction s arbitrary: acc) auto
  then show ?thesis by (simp add: reverse_def)
qed

lemma split_most_2:
  "split_most 2 sep s =
     (if sep \<in> set s
      then [takeWhile (\<lambda>c. c \<noteq> sep) s, drop 1 (dropWhile (\<lambda>c. c \<noteq> sep) s)]
      else [s])"
  by (induction s) (auto simp: numeral_2_eq_2)

lemma rsplitn_2: "rsplitn s sep 2 = rev (map reverse (SplitN (reverse s) sep 2))"
proof -
  have one: "rsplitn_swap (Suc 0) 0 [a, b] = [reverse b, reverse a]" for a b
    by simp
  show ?thesis
    unfolding rsplitn_def SplitN_def
    by (simp add: split_most_2 Let_def one)
qed

lemma rsplitn_space:
  "rsplitn line (CHR '' '') 2 =
     (case last_space_split line of None \<Rightarrow> [line] | Some (k, f) \<Rightarrow> [k, f])"
  by (auto simp: rsplitn_2 SplitN_def split_most_2 reverse_rev last_space_split_def)

lemma merge_lines_Cons:
  "merge_lines cs (line # rest) =
     (case last_space_split line of
        None \<Rightarrow> Inl (Crash IndexOutOfRange)
      | Some (k, f) \<Rightarrow>
          (case Atoi f of
             Inl e \<Rightarrow> Inl (Return e)
           | Inr c \<Rightarrow> merge_lines (add_count cs k c) rest))"
  by (simp add: rsplitn_space split: option.splits sum.splits)

section \<open>Properties: the merge sums the counts\<close>

lemma merge_lines_entries:
  "merge_lines cs ls = Inr cs' \<Longrightarrow> cs' = add_entries cs (List.map_filter line_entry ls)"
proof (induction ls arbitrary: cs)
  case Nil
  then show ?case by (simp add: add_entries_def map_filter_simps)
next
  case (Cons line rest)
  then show ?case
    by (auto simp: merge_lines_Cons add_entries_def map_filter_simps line_entry_def
             simp del: merge_lines.simps split: option.splits sum.splits)
qed

lemma merge_files_entries:
  "merge_files cs fs = Inr cs' \<Longrightarrow> cs' = add_entries cs (concat (map profile_entries fs))"
proof (induction cs fs rule: merge_files.induct)
  case (1 cs)
  then show ?case by (simp add: add_entries_def)
next
  case (2 cs e files)
  then show ?case by simp
next
  case (3 cs lines files)
  then show ?case
    by (auto simp: add_entries_def profile_entries_def dest!: merge_lines_entries split: sum.splits)
qed

lemma map_of_add_count:
  "map_of (add_count cs k c) = (map_of cs)(k \<mapsto> (case map_of cs k of None \<Rightarrow> 0 | Some v \<Rightarrow> v) + c)"
  by (simp add: add_count_def update_conv')

lemma filter_key_absent:
  "k \<notin> fst ` set es \<Longrightarrow> filter (\<lambda>e. fst e = k) es = []"
  by (induction es) auto

lemma map_of_add_entries:
  "map_of (add_entries cs es) k =
     (if k \<in> fst ` set es
      then Some ((case map_of cs k of None \<Rightarrow> 0 | Some v \<Rightarrow> v)
                 + sum_list (map snd (filter (\<lambda>e. fst e = k) es)))
      else map_of cs k)"
proof (induction es arbitrary: cs)
  case Nil
  then show ?case by (simp add: add_entries_def)
next
  case (Cons e es)
  have step: "add_entries cs (e # es) = add_entries (add_count cs (fst e) (snd e)) es"
    by (simp add: add_entries_def)
  show ?case
    unfolding step Cons.IH
    by (auto simp: map_of_add_count filter_key_absent split: option.splits)
qed

lemma sum_concat_entries:
  "sum_list (map snd (filter (\<lambda>e. fst e = k) (concat (map profile_entries fs))))
     = (\<Sum>f\<leftarrow>fs. count_in f k)"
  by (induction fs) (auto simp: count_in_def)

lemma merge_lines_entry:
  "line_entry line = Some (k, c) \<Longrightarrow>
   merge_lines cs (line # rest) = merge_lines (add_count cs k c) rest"
  by (auto simp: merge_lines_Cons line_entry_def simp del: merge_lines.simps
           split: option.splits sum.splits)

lemma merge_lines_Inr_entry:
  "merge_lines cs (line # rest) = Inr cs' \<Longrightarrow>
   \<exists>k c. line_entry line = Some (k, c) \<and> merge_lines (add_count cs k c) rest = Inr cs'"
  by (auto simp: merge_lines_Cons line_entry_def simp del: merge_lines.simps
           split: option.splits sum.splits)

lemma merge_lines_ok:
  "list_all (\<lambda>l. line_entry l \<noteq> None) ls \<Longrightarrow>
   merge_lines cs ls = Inr (add_entries cs (List.map_filter line_entry ls))"
proof (induction ls arbitrary: cs)
  case Nil
  then show ?case by (simp add: add_entries_def map_filter_simps)
next
  case (Cons line rest)
  from Cons.prems obtain k c where e: "line_entry line = Some (k, c)"
    by auto
  have "merge_lines cs (line # rest) = merge_lines (add_count cs k c) rest"
    using e by (rule merge_lines_entry)
  also have "\<dots> = Inr (add_entries (add_count cs k c) (List.map_filter line_entry rest))"
    using Cons.prems by (intro Cons.IH) simp
  also have "add_entries (add_count cs k c) (List.map_filter line_entry rest)
               = add_entries cs (List.map_filter line_entry (line # rest))"
    by (simp add: add_entries_def map_filter_simps e)
  finally show ?case .
qed

lemma merge_lines_Inr_ok:
  "merge_lines cs ls = Inr cs' \<Longrightarrow> list_all (\<lambda>l. line_entry l \<noteq> None) ls"
proof (induction ls arbitrary: cs)
  case Nil
  then show ?case by simp
next
  case (Cons line rest)
  from merge_lines_Inr_entry [OF Cons.prems] obtain k c where
    e: "line_entry line = Some (k, c)" and r: "merge_lines (add_count cs k c) rest = Inr cs'"
    by blast
  from Cons.IH [OF r] e show ?case by simp
qed

lemma add_entries_append:
  "add_entries cs (es @ es') = add_entries (add_entries cs es) es'"
  by (simp add: add_entries_def)

lemma merge_files_ok:
  "list_all file_ok fs \<Longrightarrow>
   merge_files cs fs = Inr (add_entries cs (concat (map profile_entries fs)))"
proof (induction cs fs rule: merge_files.induct)
  case (1 cs)
  then show ?case by (simp add: add_entries_def)
next
  case (2 cs e files)
  then show ?case by (simp add: file_ok_def)
next
  case (3 cs lines files)
  from "3.prems" have f: "file_ok (Inr lines)" and r: "list_all file_ok files"
    by simp_all
  from f have l: "list_all (\<lambda>l. line_entry l \<noteq> None) (drop 1 lines)"
    by (simp add: file_ok_def)
  have m: "merge_lines cs (drop 1 lines)
             = Inr (add_entries cs (List.map_filter line_entry (drop 1 lines)))"
    using l by (rule merge_lines_ok)
  have p: "profile_entries (Inr lines) = List.map_filter line_entry (drop 1 lines)"
    by (simp add: profile_entries_def)
  have "merge_files cs (Inr lines # files)
          = merge_files (add_entries cs (profile_entries (Inr lines))) files"
    unfolding p by (simp only: merge_files.simps m sum.case)
  also have "\<dots> = Inr (add_entries (add_entries cs (profile_entries (Inr lines)))
                        (concat (map profile_entries files)))"
    using m r unfolding p by (rule "3.IH")
  finally show ?case
    by (simp only: add_entries_append [symmetric] list.map concat.simps)
qed

lemma merge_files_Inr_ok: "merge_files cs fs = Inr cs' \<Longrightarrow> list_all file_ok fs"
proof (induction cs fs rule: merge_files.induct)
  case (1 cs)
  then show ?case by simp
next
  case (2 cs e files)
  then show ?case by simp
next
  case (3 cs lines files)
  from "3.prems" obtain cs1 where
    m: "merge_lines cs (drop 1 lines) = Inr cs1" and r: "merge_files cs1 files = Inr cs'"
    by (auto split: sum.splits)
  have "list_all (\<lambda>l. line_entry l \<noteq> None) (drop 1 lines)"
    using m by (rule merge_lines_Inr_ok)
  then have "file_ok (Inr lines)"
    by (simp add: file_ok_def)
  moreover have "list_all file_ok files"
    using m r by (rule "3.IH")
  ultimately show ?case by simp
qed

lemma sum_list_word_of_int:
  "(sum_list xs :: int64) = word_of_int (\<Sum>x\<leftarrow>xs. sint x)"
  by (induction xs) simp_all

lemma sint_sum_list_exact:
  assumes "- (2 ^ 63) \<le> (\<Sum>x\<leftarrow>xs. sint x)" "(\<Sum>x\<leftarrow>xs. sint x) < 2 ^ 63"
  shows "sint (sum_list xs :: int64) = (\<Sum>x\<leftarrow>xs. sint x)"
proof -
  have "sint (sum_list xs :: int64) = signed_take_bit 63 (\<Sum>x\<leftarrow>xs. sint x)"
    by (simp only: sum_list_word_of_int [of xs] sint_sbintrunc') simp
  also have "\<dots> = (\<Sum>x\<leftarrow>xs. sint x)"
    using assms by (rule signed_take_bit_int_eq_self)
  finally show ?thesis .
qed

lemma count_in_exact:
  assumes "- (2 ^ 63) \<le> (\<Sum>e\<leftarrow>filter (\<lambda>e. fst e = k) (concat (map profile_entries files)). sint (snd e))"
    and "(\<Sum>e\<leftarrow>filter (\<lambda>e. fst e = k) (concat (map profile_entries files)). sint (snd e)) < 2 ^ 63"
  shows "sint (\<Sum>f\<leftarrow>files. count_in f k)
           = (\<Sum>e\<leftarrow>filter (\<lambda>e. fst e = k) (concat (map profile_entries files)). sint (snd e))"
proof -
  let ?es = "filter (\<lambda>e. fst e = k) (concat (map profile_entries files))"
  have "(\<Sum>f\<leftarrow>files. count_in f k) = sum_list (map snd ?es)"
    by (rule sum_concat_entries [symmetric])
  moreover have "(\<Sum>x\<leftarrow>map snd ?es. sint x) = (\<Sum>e\<leftarrow>?es. sint (snd e))"
    by (simp add: comp_def)
  ultimately show ?thesis
    using sint_sum_list_exact [of "map snd ?es"] assms by simp
qed

lemma count_in_absent: "\<not> has_key f k \<Longrightarrow> count_in f k = 0"
  by (simp add: count_in_def has_key_def filter_key_absent)

lemma merged_lookup:
  assumes "merge_files [] files = Inr merged"
  shows "map_of merged k =
           (if k \<in> fst ` set (concat (map profile_entries files))
            then Some (\<Sum>f\<leftarrow>files. count_in f k) else None)"
proof -
  have "merged = add_entries [] (concat (map profile_entries files))"
    using assms by (rule merge_files_entries)
  then show ?thesis
    by (simp add: map_of_add_entries sum_concat_entries)
qed

lemma has_key_concat:
  "(k \<in> fst ` set (concat (map profile_entries files))) = (\<exists>f \<in> set files. has_key f k)"
  by (auto simp: has_key_def)

text \<open>
  C1. The merge goes through when every profile opens and every line after its header
  splits and parses. When it goes through, the merged map holds a key exactly when some
  profile has it, and its count is then the sum, over all the profiles, of the count the
  key has in each (0 in a profile without the key; the count of the one profile when only
  one has it). Counts are Go \<^verbatim>\<open>int\<close>s and the sum is Go's \<open>+\<close>; it is the exact
  sum of the counts of the key whenever that sum fits the type.
\<close>

theorem merge_sums_counts:
  "(list_all file_ok files \<longrightarrow> (\<exists>merged. merge_files [] files = Inr merged))
   \<and> (merge_files [] files = Inr merged \<longrightarrow>
        map_of merged K =
          (if \<exists>f \<in> set files. has_key f K then Some (\<Sum>f\<leftarrow>files. count_in f K) else None)
        \<and> (- (2 ^ 63) \<le> (\<Sum>e\<leftarrow>filter (\<lambda>e. fst e = K) (concat (map profile_entries files)).
                             sint (snd e))
             \<and> (\<Sum>e\<leftarrow>filter (\<lambda>e. fst e = K) (concat (map profile_entries files)).
                    sint (snd e)) < 2 ^ 63
             \<longrightarrow> sint (\<Sum>f\<leftarrow>files. count_in f K)
                   = (\<Sum>e\<leftarrow>filter (\<lambda>e. fst e = K) (concat (map profile_entries files)).
                        sint (snd e))))"
proof (intro conjI impI)
  assume "list_all file_ok files"
  then show "\<exists>merged. merge_files [] files = Inr merged"
    by (simp add: merge_files_ok)
next
  assume "merge_files [] files = Inr merged"
  from merged_lookup [OF this, of K]
  show "map_of merged K =
          (if \<exists>f \<in> set files. has_key f K then Some (\<Sum>f\<leftarrow>files. count_in f K) else None)"
    by (simp only: has_key_concat)
next
  assume "- (2 ^ 63) \<le> (\<Sum>e\<leftarrow>filter (\<lambda>e. fst e = K) (concat (map profile_entries files)).
                             sint (snd e))
             \<and> (\<Sum>e\<leftarrow>filter (\<lambda>e. fst e = K) (concat (map profile_entries files)).
                    sint (snd e)) < 2 ^ 63"
  then show "sint (\<Sum>f\<leftarrow>files. count_in f K)
                   = (\<Sum>e\<leftarrow>filter (\<lambda>e. fst e = K) (concat (map profile_entries files)).
                        sint (snd e))"
    using count_in_exact [of K files] by blast
qed

theorem merge_sums_counts_witness:
  "list_all file_ok
     [Inr [''mode: count'', ''a.go:1.1,1.5 2 3''],
      Inr [''mode: count'', ''a.go:1.1,1.5 2 4'', ''b.go:2.1,2.5 1 1'']]
   \<and> merge_files []
     [Inr [''mode: count'', ''a.go:1.1,1.5 2 3''],
      Inr [''mode: count'', ''a.go:1.1,1.5 2 4'', ''b.go:2.1,2.5 1 1'']]
   = Inr [(''a.go:1.1,1.5 2'', 7), (''b.go:2.1,2.5 1'', 1)]
   \<and> map_of [(''a.go:1.1,1.5 2'', 7 :: int64), (''b.go:2.1,2.5 1'', 1)] ''a.go:1.1,1.5 2''
       = Some (\<Sum>f\<leftarrow>[Inr [''mode: count'', ''a.go:1.1,1.5 2 3''],
                        Inr [''mode: count'', ''a.go:1.1,1.5 2 4'', ''b.go:2.1,2.5 1 1'']].
                 count_in f ''a.go:1.1,1.5 2'')
   \<and> (\<Sum>e\<leftarrow>filter (\<lambda>e. fst e = ''a.go:1.1,1.5 2'')
              (concat (map profile_entries
                 [Inr [''mode: count'', ''a.go:1.1,1.5 2 3''],
                  Inr [''mode: count'', ''a.go:1.1,1.5 2 4'', ''b.go:2.1,2.5 1 1'']])).
          sint (snd e)) = 7
   \<and> sint (\<Sum>f\<leftarrow>[Inr [''mode: count'', ''a.go:1.1,1.5 2 3''],
                      Inr [''mode: count'', ''a.go:1.1,1.5 2 4'', ''b.go:2.1,2.5 1 1'']].
               count_in f ''a.go:1.1,1.5 2'') = 7"
proof -
  let ?files = "[Inr [''mode: count'', ''a.go:1.1,1.5 2 3''],
      Inr [''mode: count'', ''a.go:1.1,1.5 2 4'', ''b.go:2.1,2.5 1 1'']] :: profile_file list"
  let ?K = "''a.go:1.1,1.5 2''"
  let ?merged = "[(''a.go:1.1,1.5 2'', 7), (''b.go:2.1,2.5 1'', 1)] :: counts"
  have ok: "list_all file_ok ?files"
    by code_simp
  have k: "\<exists>f \<in> set ?files. has_key f ?K"
    by code_simp
  have e: "(\<Sum>e\<leftarrow>filter (\<lambda>e. fst e = ?K) (concat (map profile_entries ?files)). sint (snd e)) = 7"
    by code_simp
  have v: "merge_files [] ?files = Inr ?merged"
    by code_simp
  note inst = merge_sums_counts [of ?files ?merged ?K]
  from inst ok have "\<exists>merged. merge_files [] ?files = Inr merged"
    by (rule conjunct1 [THEN mp])
  with v have m: "merge_files [] ?files = Inr ?merged"
    by simp
  from inst m k have a: "map_of ?merged ?K = Some (\<Sum>f\<leftarrow>?files. count_in f ?K)"
    by (simp only: simp_thms if_True)
  from inst m have b: "sint (\<Sum>f\<leftarrow>?files. count_in f ?K) = 7"
    unfolding e by simp
  from ok m a e b show ?thesis by (intro conjI)
qed

section \<open>Properties: the order of the profile files\<close>

lemma distinct_add_entries:
  "distinct (map fst cs) \<Longrightarrow> distinct (map fst (add_entries cs es))"
proof (induction es arbitrary: cs)
  case Nil
  then show ?case by (simp add: add_entries_def)
next
  case (Cons e es)
  have "distinct (map fst (add_count cs (fst e) (snd e)))"
    using Cons.prems by (simp add: add_count_def distinct_update)
  from Cons.IH [OF this] show ?case by (simp add: add_entries_def)
qed

lemma sum_count_in_mset:
  assumes "mset fs = mset fs'"
  shows "(\<Sum>f\<leftarrow>fs. count_in f k) = (\<Sum>f\<leftarrow>fs'. count_in f k)"
proof -
  have "(\<Sum>f\<leftarrow>fs. count_in f k) = sum_mset (image_mset (\<lambda>f. count_in f k) (mset fs))" for fs
    by (simp add: sum_mset_sum_list [symmetric])
  then show ?thesis
    by (simp add: assms)
qed

text \<open>
  C4. Merging the same profile files in another order goes through as well and gives the
  same map from keys to counts, and so the same merged profile on disk.
\<close>

theorem merge_order_irrelevant:
  assumes perm: "mset files = mset files'"
    and ok: "merge_files [] files = Inr merged"
  shows "\<exists>merged'. merge_files [] files' = Inr merged'
           \<and> map_of merged' = map_of merged
           \<and> emit_profile merged' = emit_profile merged"
proof -
  let ?es = "concat (map profile_entries files)"
  let ?m' = "add_entries [] (concat (map profile_entries files'))"
  have m: "merged = add_entries [] ?es"
    using ok by (rule merge_files_entries)
  have sets: "set files = set files'"
    using perm by (rule mset_eq_setD)
  have "list_all file_ok files"
    using ok by (rule merge_files_Inr_ok)
  then have "list_all file_ok files'"
    using sets by (simp add: list_all_iff)
  then have m': "merge_files [] files' = Inr ?m'"
    by (rule merge_files_ok)
  have maps: "map_of ?m' = map_of merged"
  proof
    fix k
    have "map_of ?m' k =
            (if \<exists>f\<in>set files'. has_key f k then Some (\<Sum>f\<leftarrow>files'. count_in f k) else None)"
      using merged_lookup [OF m', of k] by (simp only: has_key_concat)
    also have "\<dots> = (if \<exists>f\<in>set files. has_key f k then Some (\<Sum>f\<leftarrow>files. count_in f k) else None)"
      by (simp only: sets sum_count_in_mset [OF perm, of k])
    also have "\<dots> = map_of merged k"
      using merged_lookup [OF ok, of k] by (simp only: has_key_concat)
    finally show "map_of ?m' k = map_of merged k" .
  qed
  have "fst ` set ?m' = dom (map_of ?m')" "fst ` set merged = dom (map_of merged)"
    by (simp_all add: dom_map_of_conv_image_fst)
  then have "set (map fst ?m') = set (map fst merged)"
    by (simp add: maps)
  moreover have "distinct (map fst ?m')" "distinct (map fst merged)"
    unfolding m by (simp_all add: distinct_add_entries)
  ultimately have "mset (map fst merged) = mset (map fst ?m')"
    by (simp only: set_eq_iff_mset_eq_distinct)
  then have "sort (map fst ?m') = sort (map fst merged)"
    by (intro properties_for_sort) simp_all
  then have "emit_profile ?m' = emit_profile merged"
    by (simp add: emit_profile_def lookup_count_def maps)
  with m' maps show ?thesis by blast
qed

theorem merge_order_irrelevant_witness:
  "mset [Inr [''mode: count'', ''a.go:1.1,1.5 2 3''],
         Inr [''mode: count'', ''a.go:1.1,1.5 2 4'', ''b.go:2.1,2.5 1 1'']]
     = mset [Inr [''mode: count'', ''a.go:1.1,1.5 2 4'', ''b.go:2.1,2.5 1 1''],
             Inr [''mode: count'', ''a.go:1.1,1.5 2 3'' :: string] :: profile_file]
   \<and> merge_files []
         [Inr [''mode: count'', ''a.go:1.1,1.5 2 3''],
          Inr [''mode: count'', ''a.go:1.1,1.5 2 4'', ''b.go:2.1,2.5 1 1'']]
       = Inr [(''a.go:1.1,1.5 2'', 7), (''b.go:2.1,2.5 1'', 1)]
   \<and> (\<exists>merged'.
         merge_files []
           [Inr [''mode: count'', ''a.go:1.1,1.5 2 4'', ''b.go:2.1,2.5 1 1''],
            Inr [''mode: count'', ''a.go:1.1,1.5 2 3'']]
         = Inr merged'
         \<and> map_of merged' = map_of [(''a.go:1.1,1.5 2'', 7), (''b.go:2.1,2.5 1'', 1)]
         \<and> emit_profile merged'
             = emit_profile [(''a.go:1.1,1.5 2'', 7), (''b.go:2.1,2.5 1'', 1)])"
proof -
  let ?p1 = "Inr [''mode: count'', ''a.go:1.1,1.5 2 3''] :: profile_file"
  let ?p2 = "Inr [''mode: count'', ''a.go:1.1,1.5 2 4'', ''b.go:2.1,2.5 1 1''] :: profile_file"
  have p: "mset [?p1, ?p2] = mset [?p2, ?p1]"
    by simp
  have m: "merge_files [] [?p1, ?p2] = Inr [(''a.go:1.1,1.5 2'', 7), (''b.go:2.1,2.5 1'', 1)]"
    by code_simp
  from merge_order_irrelevant [OF p m] p m show ?thesis
    by (simp only: simp_thms)
qed

section \<open>Properties: a line and its last field\<close>

lemma last_space_split_Some:
  "CHR '' '' \<in> set line \<Longrightarrow>
   \<exists>k f. last_space_split line = Some (k, f) \<and> line = k @ '' '' @ f \<and> CHR '' '' \<notin> set f"
proof -
  assume sp: "CHR '' '' \<in> set line"
  let ?P = "\<lambda>c. c \<noteq> CHR '' ''"
  let ?r = "rev line"
  have sp': "CHR '' '' \<in> set ?r" using sp by simp
  then have "dropWhile ?P ?r \<noteq> []"
    by (simp add: dropWhile_eq_Nil_conv)
  then have hd: "dropWhile ?P ?r = CHR '' '' # drop 1 (dropWhile ?P ?r)"
    using hd_dropWhile [of ?P ?r] by (cases "dropWhile ?P ?r") auto
  have "?r = takeWhile ?P ?r @ dropWhile ?P ?r" by simp
  then have "?r = takeWhile ?P ?r @ CHR '' '' # drop 1 (dropWhile ?P ?r)"
    using hd by metis
  then have "rev ?r = rev (takeWhile ?P ?r @ CHR '' '' # drop 1 (dropWhile ?P ?r))"
    by simp
  then have "line = rev (drop 1 (dropWhile ?P ?r)) @ '' '' @ rev (takeWhile ?P ?r)"
    by simp
  moreover have "CHR '' '' \<notin> set (rev (takeWhile ?P ?r))"
    by (auto dest: set_takeWhileD)
  ultimately show ?thesis
    using sp by (auto simp: last_space_split_def)
qed

lemma Atoi_error: "Atoi f = Inl e \<Longrightarrow> \<exists>x. e = NumError f x"
  by (auto simp: Atoi_def split: sum.splits)

text \<open>
  C6, as the code has it. A line with a space in it is split at its last space: the key is
  what stands before, the field what stands after. When \<^verbatim>\<open>Atoi\<close> refuses the
  field, the merge stops there and returns that \<^verbatim>\<open>NumError\<close>; otherwise the count
  is added under the key and the merge goes on. Only the space separates: a tab is a
  character of the key or of the field like any other.
\<close>

theorem merge_line_with_space:
  assumes "CHR '' '' \<in> set line"
  shows "\<exists>k f. line = k @ '' '' @ f \<and> CHR '' '' \<notin> set f
           \<and> rsplitn line (CHR '' '') 2 = [k, f]
           \<and> (case Atoi f of
                 Inl e \<Rightarrow> (\<exists>x. e = NumError f x) \<and> merge_lines cs (line # rest) = Inl (Return e)
               | Inr c \<Rightarrow> merge_lines cs (line # rest) = merge_lines (add_count cs k c) rest)"
proof -
  from last_space_split_Some [OF assms] obtain k f where
    s: "last_space_split line = Some (k, f)" and l: "line = k @ '' '' @ f"
    and f: "CHR '' '' \<notin> set f"
    by blast
  have "rsplitn line (CHR '' '') 2 = [k, f]"
    by (simp add: rsplitn_space s)
  moreover have "case Atoi f of
                 Inl e \<Rightarrow> (\<exists>x. e = NumError f x) \<and> merge_lines cs (line # rest) = Inl (Return e)
               | Inr c \<Rightarrow> merge_lines cs (line # rest) = merge_lines (add_count cs k c) rest"
    by (auto simp: merge_lines_Cons s simp del: merge_lines.simps
             dest: Atoi_error split: sum.splits)
  ultimately show ?thesis using l f by blast
qed

theorem merge_line_with_space_witness:
  "CHR '' '' \<in> set ''a.go:1.1,1.5 2 x''
   \<and> (\<exists>k f. ''a.go:1.1,1.5 2 x'' = k @ '' '' @ f \<and> CHR '' '' \<notin> set f
         \<and> rsplitn ''a.go:1.1,1.5 2 x'' (CHR '' '') 2 = [k, f]
         \<and> (case Atoi f of
               Inl e \<Rightarrow> (\<exists>x. e = NumError f x)
                         \<and> merge_lines [] [''a.go:1.1,1.5 2 x''] = Inl (Return e)
             | Inr c \<Rightarrow> merge_lines [] [''a.go:1.1,1.5 2 x''] = merge_lines (add_count [] k c) []))
   \<and> rsplitn ''a.go:1.1,1.5 2 x'' (CHR '' '') 2 = [''a.go:1.1,1.5 2'', ''x'']
   \<and> merge_lines [] [''a.go:1.1,1.5 2 x''] = Inl (Return (NumError ''x'' ErrSyntax))
   \<and> merge_lines [] [''a.go:1.1,1.5 2 3''] = Inr [(''a.go:1.1,1.5 2'', 3)]"
proof -
  have h: "CHR '' '' \<in> set ''a.go:1.1,1.5 2 x''"
    by simp
  have r: "rsplitn ''a.go:1.1,1.5 2 x'' (CHR '' '') 2 = [''a.go:1.1,1.5 2'', ''x'']"
    by code_simp
  have e: "merge_lines [] [''a.go:1.1,1.5 2 x''] = Inl (Return (NumError ''x'' ErrSyntax))"
    by code_simp
  have g: "merge_lines [] [''a.go:1.1,1.5 2 3''] = Inr [(''a.go:1.1,1.5 2'', 3)]"
    by code_simp
  from merge_line_with_space [OF h, of "[]" "[]"] h r e g show ?thesis
    by (simp only: simp_thms)
qed

text \<open>
  C6 as stated fails: a line whose fields are separated by tabs has no space, so it is not
  split at all and \<^verbatim>\<open>items[1]\<close> panics; the merge neither adds the count 3 under the
  key nor returns a parse error.
\<close>

theorem tab_line_not_split:
  "rsplitn (''a.go:1.1,1.5'' @ [CHR 0x09] @ ''2'' @ [CHR 0x09] @ ''3'') (CHR '' '') 2
     = [''a.go:1.1,1.5'' @ [CHR 0x09] @ ''2'' @ [CHR 0x09] @ ''3'']
   \<and> merge_files []
         [Inr [''mode: count'', ''a.go:1.1,1.5'' @ [CHR 0x09] @ ''2'' @ [CHR 0x09] @ ''3'']]
       = Inl (Crash IndexOutOfRange)"
  by code_simp

section \<open>Properties: the scheduler\<close>

lemma drain_eq:
  "drain err printed buffer = (printed @ buffer, if buffer = [] then err else Some (last buffer))"
  by (induction buffer arbitrary: err printed) auto

lemma finish_eq:
  "finish duration buffer = (buffer, if buffer = [] then None else Some (ChecksFailed duration))"
  by (simp add: finish_def drain_eq)

lemma mset_concat_update:
  "i < length tasks \<Longrightarrow> tasks ! i = e # es \<Longrightarrow>
   add_mset e (mset (concat (tasks[i := es]))) = mset (concat tasks)"
proof (induction tasks arbitrary: i)
  case Nil
  then show ?case by simp
next
  case (Cons t tasks)
  then show ?case by (cases i) auto
qed

lemma send_step_inv:
  assumes "send_step capacity (tasks, buffer) (tasks', buffer')"
  shows "mset buffer' + mset (concat tasks') = mset buffer + mset (concat tasks)"
    and "length buffer' \<le> capacity"
    and "length tasks' = length tasks"
  using assms by (auto elim!: send_step.cases simp: mset_concat_update [symmetric])

lemma send_steps_inv:
  assumes "(send_step capacity)\<^sup>*\<^sup>* st st'"
  shows "mset (snd st') + mset (concat (fst st')) = mset (snd st) + mset (concat (fst st))
         \<and> (length (snd st) \<le> capacity \<longrightarrow> length (snd st') \<le> capacity)
         \<and> length (fst st') = length (fst st)"
  using assms
proof (induction rule: rtranclp_induct)
  case base
  then show ?case by simp
next
  case (step y z)
  obtain t b t' b' where y: "y = (t, b)" and z: "z = (t', b')"
    by (cases y, cases z) blast
  from step.hyps(2) send_step_inv [of capacity t b t' b'] step.IH
  show ?case by (simp add: y z)
qed

lemma all_done_concat: "all_done tasks \<longleftrightarrow> concat tasks = []"
  by (induction tasks) (auto simp: all_done_def)

lemma start_buffer: "snd (start config runLevel results) = []"
  by (simp add: start_def Let_def)

lemma start_length:
  "length (fst (start config runLevel results)) = length (EnabledChecks config runLevel)"
  by (simp add: start_def Let_def)

lemma run_returns_sends:
  assumes "run_returns config runLevel results duration (printed, err)"
  shows "mset printed = mset (concat (fst (start config runLevel results)))"
    and "err = (if printed = [] then None else Some (ChecksFailed duration))"
    and "length printed \<le> length (EnabledChecks config runLevel)"
proof -
  from assms obtain tasks buffer where
    steps: "(send_step (length (EnabledChecks config runLevel)))\<^sup>*\<^sup>*
              (start config runLevel results) (tasks, buffer)"
    and ad: "all_done tasks"
    and fin: "(printed, err) = finish duration buffer"
    by (auto elim: run_returns.cases)
  from fin have p: "printed = buffer"
    and e: "err = (if printed = [] then None else Some (ChecksFailed duration))"
    by (simp_all add: finish_eq)
  from ad have c: "mset (concat tasks) = {#}"
    by (simp add: all_done_concat)
  from send_steps_inv [OF steps]
  show "mset printed = mset (concat (fst (start config runLevel results)))"
    and "length printed \<le> length (EnabledChecks config runLevel)"
    by (simp_all add: p c start_buffer)
  show "err = (if printed = [] then None else Some (ChecksFailed duration))"
    by (rule e)
qed

lemma send_all:
  "length buffer + length (concat tasks) \<le> capacity \<Longrightarrow>
   \<exists>tasks' buffer'. (send_step capacity)\<^sup>*\<^sup>* (tasks, buffer) (tasks', buffer') \<and> all_done tasks'"
proof (induction "length (concat tasks)" arbitrary: tasks buffer)
  case 0
  then have "all_done tasks" by (simp add: all_done_concat)
  then show ?case by blast
next
  case (Suc n)
  from Suc.hyps(2) have "concat tasks \<noteq> []"
    by (cases "concat tasks") simp_all
  then obtain t where "t \<in> set tasks" "t \<noteq> []" by auto
  then obtain i e es where i: "i < length tasks" and ti: "tasks ! i = e # es"
    by (metis in_set_conv_nth neq_Nil_conv)
  from Suc.prems Suc.hyps(2) have room: "length buffer < capacity" by simp
  have st: "send_step capacity (tasks, buffer) (tasks[i := es], buffer @ [e])"
    using i ti room by (rule send_step.intros)
  have len: "length (concat (tasks[i := es])) = n"
  proof -
    have "size (add_mset e (mset (concat (tasks[i := es])))) = size (mset (concat tasks))"
      using mset_concat_update [OF i ti] by simp
    then show ?thesis using Suc.hyps(2) by simp
  qed
  have "length (buffer @ [e]) + length (concat (tasks[i := es])) \<le> capacity"
    using Suc.prems Suc.hyps(2) len by simp
  from Suc.hyps(1) [OF len [symmetric] this] obtain tasks' buffer' where
    "(send_step capacity)\<^sup>*\<^sup>* (tasks[i := es], buffer @ [e]) (tasks', buffer')" "all_done tasks'"
    by blast
  with st show ?case
    by (meson converse_rtranclp_into_rtranclp)
qed

lemma run_returns_iff:
  "(\<exists>r. run_returns config runLevel results duration r) \<longleftrightarrow>
   length (concat (fst (start config runLevel results))) \<le> length (EnabledChecks config runLevel)"
proof
  assume "\<exists>r. run_returns config runLevel results duration r"
  then obtain printed err where r: "run_returns config runLevel results duration (printed, err)"
    by auto
  from run_returns_sends(1,3) [OF r]
  show "length (concat (fst (start config runLevel results))) \<le> length (EnabledChecks config runLevel)"
    by (metis size_mset)
next
  assume le: "length (concat (fst (start config runLevel results))) \<le> length (EnabledChecks config runLevel)"
  obtain tasks0 where s: "start config runLevel results = (tasks0, [])"
    by (cases "start config runLevel results") (use start_buffer [of config runLevel results] in auto)
  from le have "length ([] :: error list) + length (concat tasks0) \<le> length (EnabledChecks config runLevel)"
    by (simp add: s)
  from send_all [OF this] obtain tasks' buffer' where
    "(send_step (length (EnabledChecks config runLevel)))\<^sup>*\<^sup>* (tasks0, []) (tasks', buffer')"
    "all_done tasks'"
    by blast
  then have "run_returns config runLevel results duration (finish duration buffer')"
    unfolding s [symmetric] by (rule run_returns.intros)
  then show "\<exists>r. run_returns config runLevel results duration r" by blast
qed

lemma never_blocked:
  assumes le: "length (concat (fst (start config runLevel results))) \<le> length (EnabledChecks config runLevel)"
  shows "\<not> run_blocks config runLevel results"
proof
  assume "run_blocks config runLevel results"
  then obtain st where
    steps: "(send_step (length (EnabledChecks config runLevel)))\<^sup>*\<^sup>* (start config runLevel results) st"
    and b: "blocked (length (EnabledChecks config runLevel)) st"
    by (auto elim: run_blocks.cases)
  from send_steps_inv [OF steps]
  have "size (mset (snd st) + mset (concat (fst st)))
          = size (mset (concat (fst (start config runLevel results))))"
    by (simp add: start_buffer)
  then have "length (snd st) + length (concat (fst st)) \<le> length (EnabledChecks config runLevel)"
    using le by simp
  moreover from b have "concat (fst st) \<noteq> []" "length (EnabledChecks config runLevel) \<le> length (snd st)"
    by (simp_all add: blocked_def all_done_concat)
  ultimately show False
    by (cases "concat (fst st)") auto
qed

lemma send_until_full:
  "length buffer \<le> capacity \<Longrightarrow> capacity < length buffer + length (concat tasks) \<Longrightarrow>
   \<exists>st. (send_step capacity)\<^sup>*\<^sup>* (tasks, buffer) st \<and> blocked capacity st"
proof (induction "capacity - length buffer" arbitrary: tasks buffer)
  case 0
  then have "concat tasks \<noteq> []" "capacity \<le> length buffer"
    by auto
  then have "blocked capacity (tasks, buffer)"
    by (simp add: blocked_def all_done_concat)
  then show ?case by blast
next
  case (Suc n)
  from Suc.hyps(2) have room: "length buffer < capacity" by simp
  with Suc.prems have "concat tasks \<noteq> []"
    by (cases "concat tasks") simp_all
  then obtain t where "t \<in> set tasks" "t \<noteq> []" by auto
  then obtain i e es where i: "i < length tasks" and ti: "tasks ! i = e # es"
    by (metis in_set_conv_nth neq_Nil_conv)
  have st: "send_step capacity (tasks, buffer) (tasks[i := es], buffer @ [e])"
    using i ti room by (rule send_step.intros)
  have "size (add_mset e (mset (concat (tasks[i := es])))) = size (mset (concat tasks))"
    using mset_concat_update [OF i ti] by simp
  then have len: "Suc (length (concat (tasks[i := es]))) = length (concat tasks)"
    by simp
  have a: "n = capacity - length (buffer @ [e])"
    using Suc.hyps(2) by simp
  have b: "length (buffer @ [e]) \<le> capacity"
    using room by simp
  have c: "capacity < length (buffer @ [e]) + length (concat (tasks[i := es]))"
    using Suc.prems(2) len by simp
  from Suc.hyps(1) [OF a b c] obtain st' where
    "(send_step capacity)\<^sup>*\<^sup>* (tasks[i := es], buffer @ [e]) st'" "blocked capacity st'"
    by blast
  with st show ?case
    by (meson converse_rtranclp_into_rtranclp)
qed

lemma run_blocks_iff:
  "run_blocks config runLevel results \<longleftrightarrow>
   length (EnabledChecks config runLevel) < length (concat (fst (start config runLevel results)))"
proof
  assume "run_blocks config runLevel results"
  then show "length (EnabledChecks config runLevel) < length (concat (fst (start config runLevel results)))"
    using never_blocked [of config runLevel results] by (meson not_le)
next
  assume gt: "length (EnabledChecks config runLevel) < length (concat (fst (start config runLevel results)))"
  obtain tasks0 where s: "start config runLevel results = (tasks0, [])"
    by (cases "start config runLevel results") (use start_buffer [of config runLevel results] in auto)
  have "length ([] :: error list) \<le> length (EnabledChecks config runLevel)"
    by simp
  moreover have "length (EnabledChecks config runLevel) < length ([] :: error list) + length (concat tasks0)"
    using gt by (simp add: s)
  ultimately obtain st where
    "(send_step (length (EnabledChecks config runLevel)))\<^sup>*\<^sup>* (tasks0, []) st"
    "blocked (length (EnabledChecks config runLevel)) st"
    using send_until_full by blast
  then show "run_blocks config runLevel results"
    unfolding s [symmetric] by (rule run_blocks.intros)
qed

lemma run_returns_unique_single:
  assumes "concat (fst (start config runLevel results)) = [e]"
    and "0 < length (EnabledChecks config runLevel)"
  shows "run_returns config runLevel results duration ([e], Some (ChecksFailed duration))"
proof -
  have "length (concat (fst (start config runLevel results))) \<le> length (EnabledChecks config runLevel)"
    using assms by (simp add: Suc_leI)
  then have "\<exists>r. run_returns config runLevel results duration r"
    by (rule run_returns_iff [THEN iffD2])
  then obtain printed err where r: "run_returns config runLevel results duration (printed, err)"
    by auto
  from run_returns_sends(1) [OF r] have "mset printed = {#e#}"
    by (simp add: assms(1))
  then have p: "printed = [e]"
    by simp
  with run_returns_sends(2) [OF r] r show ?thesis by simp
qed

lemma run_returns_nil:
  assumes "concat (fst (start config runLevel results)) = []"
  shows "run_returns config runLevel results duration ([], None)"
proof -
  have "length (concat (fst (start config runLevel results))) \<le> length (EnabledChecks config runLevel)"
    by (simp only: assms list.size)
  then have "\<exists>r. run_returns config runLevel results duration r"
    by (rule run_returns_iff [THEN iffD2])
  then obtain printed err where r: "run_returns config runLevel results duration (printed, err)"
    by auto
  from run_returns_sends(1) [OF r] have p: "printed = []"
    by (simp add: assms)
  with run_returns_sends(2) [OF r] r show ?thesis by simp
qed

lemma task_sends_Nil:
  "task_sends configMax c r = [] \<longleftrightarrow> fst r = None \<and> \<not> budget configMax c <s snd r"
  by (simp add: task_sends_def split: option.splits)

lemma start_concat_Nil:
  "concat (fst (start config runLevel results)) = [] \<longleftrightarrow>
   (\<forall>i < length (EnabledChecks config runLevel).
      fst (results i) = None
      \<and> \<not> budget (ConfigMaxDuration config) (EnabledChecks config runLevel ! i) <s snd (results i))"
  by (auto simp: start_def Let_def task_sends_Nil)

lemma task_sends_mset:
  "mset (task_sends configMax c r) =
     (case fst r of None \<Rightarrow> {#} | Some e \<Rightarrow> {#e#})
     + (if (if GetMaxDuration c = 0 then configMax else GetMaxDuration c) * 1000000000 <s snd r
        then {#CheckTook (GetName c) (snd r)#} else {#})"
  by (simp add: task_sends_def budget_def Let_def split: option.splits)

lemma start_mset:
  "mset (concat (fst (start config runLevel results))) =
     (\<Sum>i\<leftarrow>[0 ..< length (EnabledChecks config runLevel)].
        mset (task_sends (ConfigMaxDuration config) (EnabledChecks config runLevel ! i) (results i)))"
  by (simp add: start_def Let_def mset_concat comp_def)

lemma budget_exact_seconds:
  assumes "0 \<le> sint m" "sint m \<le> 9223372036"
  shows "sint (m * 1000000000 :: int64) = sint m * 1000000000"
proof -
  have "sint (m * 1000000000) = signed_take_bit 63 (sint m * sint (1000000000 :: int64))"
    by (simp add: sint_word_ariths)
  also have "sint (1000000000 :: int64) = 1000000000" by simp
  also have "signed_take_bit 63 (sint m * 1000000000) = sint m * 1000000000"
    using assms by (intro signed_take_bit_int_eq_self) simp_all
  finally show ?thesis .
qed

lemma enabled_gofmt_only: "EnabledChecks gofmt_only 1 = [\<lparr>GetName = ''gofmt'', GetRunLevel = 1, GetMaxDuration = 1\<rparr>]"
  by code_simp

lemma start_ex: "start gofmt_only 1 (\<lambda>i. (None, 2000000000)) = ([[CheckTook ''gofmt'' 2000000000]], [])"
  by code_simp

lemma ex_run:
  "run_returns gofmt_only 1 (\<lambda>i. (None, 2000000000)) 2500000000
     ([CheckTook ''gofmt'' 2000000000], Some (ChecksFailed 2500000000))"
  by (rule run_returns_unique_single) (simp_all add: start_ex enabled_gofmt_only)

lemma ex_ok: "concat (fst (start default_config 1 (\<lambda>i. (None, 5)))) = []"
  by code_simp

text \<open>
  In a run that returns, the errors drained from the channel are exactly the sends of all
  the enabled checks: for each check the error its \<^verbatim>\<open>Run\<close> returned, if any, and
  then \<^verbatim>\<open>check <name> took <elapsed>s\<close> exactly when the time the check took is over
  \<^verbatim>\<open>time.Duration(max) * time.Second\<close>, where \<open>max\<close> is the check's own maximum if
  that is not 0 and the configuration's otherwise. The budget is computed on 64 bits; for a
  maximum of 0 to 9223372036 seconds nothing wraps around.
\<close>

lemma returning_run_drains_sends:
  assumes "run_returns config runLevel results duration (printed, err)"
  shows "mset printed =
           (\<Sum>i\<leftarrow>[0 ..< length (EnabledChecks config runLevel)].
              mset (task_sends (ConfigMaxDuration config)
                      (EnabledChecks config runLevel ! i) (results i)))
         \<and> (\<forall>c r. task_sends (ConfigMaxDuration config) c r =
                (case fst r of None \<Rightarrow> [] | Some e \<Rightarrow> [e])
                @ (if (if GetMaxDuration c = 0 then ConfigMaxDuration config
                       else GetMaxDuration c) * 1000000000 <s snd r
                   then [CheckTook (GetName c) (snd r)]
                   else []))
         \<and> (\<forall>max elapsed :: int64.
               0 \<le> sint max \<and> sint max \<le> 9223372036 \<longrightarrow>
               (max * 1000000000 <s elapsed) = (sint max * 1000000000 < sint elapsed))"
  using run_returns_sends(1) [OF assms]
  by (simp add: start_mset task_sends_def budget_def Let_def word_sless_alt budget_exact_seconds)

text \<open>With one check enabled that has two errors to send, the channel has room for one:
  the goroutine sends the first and keeps the second for ever.\<close>

lemma single_check_states:
  assumes "(send_step 1)\<^sup>*\<^sup>* ([[e, t]], []) st"
  shows "st = ([[e, t]], []) \<or> st = ([[t]], [e])"
  using assms
proof (induction rule: rtranclp_induct)
  case base
  then show ?case by simp
next
  case (step y z)
  from step.IH show ?case
  proof
    assume "y = ([[e, t]], [])"
    with step.hyps(2) show ?thesis
      by (auto elim!: send_step.cases)
  next
    assume "y = ([[t]], [e])"
    with step.hyps(2) show ?thesis
      by (auto elim!: send_step.cases)
  qed
qed

lemma start_single:
  assumes "EnabledChecks config runLevel = [c]"
  shows "start config runLevel results = ([task_sends (ConfigMaxDuration config) c (results 0)], [])"
  using assms by (simp add: start_def Let_def)

text \<open>
  C2. The budget error \<^verbatim>\<open>check <name> took <elapsed>s\<close> is to be posted exactly when
  the time a check took is over its budget, whether or not its \<^verbatim>\<open>Run\<close> returned an
  error. The goroutine does decide so, but it sends the error of \<^verbatim>\<open>Run\<close> first, on a
  channel with room for one error per enabled check that nothing receives before every
  goroutine is done. When a single check is enabled, returns an error and is over its
  budget, the first send fills the channel: in every state the run can reach, the budget
  error is still waiting in the goroutine and the channel holds nothing or the error of
  \<^verbatim>\<open>Run\<close> alone. The budget error is never posted, and the run never returns.
\<close>

theorem budget_error_never_posted:
  assumes "EnabledChecks config runLevel = [c]"
    and "results 0 = (Some e, elapsed)"
    and "budget (ConfigMaxDuration config) c <s elapsed"
  shows "task_sends (ConfigMaxDuration config) c (results 0) = [e, CheckTook (GetName c) elapsed]
       \<and> start config runLevel results = ([[e, CheckTook (GetName c) elapsed]], [])
       \<and> \<not> (\<exists>st. (send_step (length (EnabledChecks config runLevel)))\<^sup>*\<^sup>*
                     (start config runLevel results) st
                 \<and> st \<noteq> ([[e, CheckTook (GetName c) elapsed]], [])
                 \<and> st \<noteq> ([[CheckTook (GetName c) elapsed]], [e]))
       \<and> run_blocks config runLevel results
       \<and> \<not> (\<exists>duration r. run_returns config runLevel results duration r)"
proof -
  have t: "task_sends (ConfigMaxDuration config) c (results 0) = [e, CheckTook (GetName c) elapsed]"
    using assms(2,3) by (simp add: task_sends_def)
  have s: "start config runLevel results = ([[e, CheckTook (GetName c) elapsed]], [])"
    using start_single [OF assms(1), of results] by (simp add: t)
  have n: "\<not> (\<exists>st. (send_step (length (EnabledChecks config runLevel)))\<^sup>*\<^sup>*
                     (start config runLevel results) st
                 \<and> st \<noteq> ([[e, CheckTook (GetName c) elapsed]], [])
                 \<and> st \<noteq> ([[CheckTook (GetName c) elapsed]], [e]))"
    using single_check_states [of e "CheckTook (GetName c) elapsed"]
    by (auto simp: s assms(1))
  have gt: "length (EnabledChecks config runLevel)
              < length (concat (fst (start config runLevel results)))"
    by (simp add: s assms(1))
  then have b: "run_blocks config runLevel results"
    by (rule run_blocks_iff [THEN iffD2])
  have r: "\<not> (\<exists>r. run_returns config runLevel results duration r)" for duration
    using gt by (simp only: run_returns_iff not_le)
  from t s n b r show ?thesis by blast
qed

theorem budget_error_never_posted_witness:
  "EnabledChecks gofmt_only 1 = [\<lparr>GetName = ''gofmt'', GetRunLevel = 1, GetMaxDuration = 1\<rparr>]
   \<and> budget (ConfigMaxDuration gofmt_only)
        \<lparr>GetName = ''gofmt'', GetRunLevel = 1, GetMaxDuration = 1\<rparr> <s 2000000000
   \<and> task_sends (ConfigMaxDuration gofmt_only)
        \<lparr>GetName = ''gofmt'', GetRunLevel = 1, GetMaxDuration = 1\<rparr>
        (Some (ImproperlyFormatted ''gofmt -w -s .'' ''a.go''), 2000000000)
      = [ImproperlyFormatted ''gofmt -w -s .'' ''a.go'', CheckTook ''gofmt'' 2000000000]
   \<and> \<not> (\<exists>st. (send_step (length (EnabledChecks gofmt_only 1)))\<^sup>*\<^sup>*
                 (start gofmt_only 1
                    (\<lambda>i. (Some (ImproperlyFormatted ''gofmt -w -s .'' ''a.go''), 2000000000))) st
             \<and> st \<noteq> ([[ImproperlyFormatted ''gofmt -w -s .'' ''a.go'',
                        CheckTook ''gofmt'' 2000000000]], [])
             \<and> st \<noteq> ([[CheckTook ''gofmt'' 2000000000]],
                      [ImproperlyFormatted ''gofmt -w -s .'' ''a.go'']))
   \<and> \<not> (\<exists>duration r. run_returns gofmt_only 1
          (\<lambda>i. (Some (ImproperlyFormatted ''gofmt -w -s .'' ''a.go''), 2000000000)) duration r)"
proof -
  let ?c = "\<lparr>GetName = ''gofmt'', GetRunLevel = 1, GetMaxDuration = 1\<rparr>"
  let ?e = "ImproperlyFormatted ''gofmt -w -s .'' ''a.go''"
  have en: "EnabledChecks gofmt_only 1 = [?c]"
    by code_simp
  have r0: "(\<lambda>i :: nat. (Some ?e, 2000000000 :: int64)) 0 = (Some ?e, 2000000000)"
    by simp
  have over: "budget (ConfigMaxDuration gofmt_only) ?c <s 2000000000"
    by code_simp
  note inst = budget_error_never_posted [OF en r0 over]
  from inst have t: "task_sends (ConfigMaxDuration gofmt_only) ?c (Some ?e, 2000000000)
      = [?e, CheckTook ''gofmt'' 2000000000]"
    by simp
  from inst have n: "\<not> (\<exists>st. (send_step (length (EnabledChecks gofmt_only 1)))\<^sup>*\<^sup>*
                 (start gofmt_only 1 (\<lambda>i. (Some ?e, 2000000000))) st
             \<and> st \<noteq> ([[?e, CheckTook ''gofmt'' 2000000000]], [])
             \<and> st \<noteq> ([[CheckTook ''gofmt'' 2000000000]], [?e]))"
    by simp
  from inst have r: "\<not> (\<exists>duration r. run_returns gofmt_only 1
          (\<lambda>i. (Some ?e, 2000000000)) duration r)"
    by (elim conjE)
  from en over t n r show ?thesis by (intro conjI)
qed

text \<open>
  C3. A run that returns gives no error when nothing was drained and otherwise the one
  error \<^verbatim>\<open>checks failed in <duration>s\<close>, built from the time of the whole run
  and from none of the drained errors. When every enabled check returns no error within its
  budget, the run returns, and returns no error.
\<close>

theorem run_nil_or_summary:
  "(run_returns config runLevel results duration (printed, err) \<longrightarrow>
      err = (if printed = [] then None else Some (ChecksFailed duration)))
   \<and> ((\<forall>i < length (EnabledChecks config runLevel).
          fst (results i) = None
          \<and> \<not> budget (ConfigMaxDuration config) (EnabledChecks config runLevel ! i) <s snd (results i))
       \<longrightarrow> run_returns config runLevel results duration ([], None)
           \<and> (\<forall>r. run_returns config runLevel results duration r \<longrightarrow> r = ([], None)))"
proof (intro conjI impI allI)
  assume "run_returns config runLevel results duration (printed, err)"
  then show "err = (if printed = [] then None else Some (ChecksFailed duration))"
    by (rule run_returns_sends(2))
next
  assume ok: "\<forall>i < length (EnabledChecks config runLevel).
          fst (results i) = None
          \<and> \<not> budget (ConfigMaxDuration config) (EnabledChecks config runLevel ! i) <s snd (results i)"
  then have n: "concat (fst (start config runLevel results)) = []"
    by (simp only: start_concat_Nil)
  then show "run_returns config runLevel results duration ([], None)"
    by (rule run_returns_nil)
  fix r
  assume r: "run_returns config runLevel results duration r"
  obtain p e where pe: "r = (p, e)" by (cases r)
  from run_returns_sends(1,2) [OF r [unfolded pe]] n
  show "r = ([], None)" by (simp add: pe)
qed

theorem run_nil_or_summary_witness:
  "run_returns gofmt_only 1 (\<lambda>i. (None, 2000000000)) 2500000000
     ([CheckTook ''gofmt'' 2000000000], Some (ChecksFailed 2500000000))
   \<and> Some (ChecksFailed 2500000000)
       = (if [CheckTook ''gofmt'' 2000000000] = [] then None else Some (ChecksFailed 2500000000))
   \<and> list_all (\<lambda>c. \<not> budget (ConfigMaxDuration default_config) c <s 5)
         (EnabledChecks default_config 1)
   \<and> run_returns default_config 1 (\<lambda>i. (None, 5)) 15 ([], None)"
proof -
  have l: "list_all (\<lambda>c. \<not> budget (ConfigMaxDuration default_config) c <s 5)
         (EnabledChecks default_config 1)"
    by code_simp
  have ok: "\<forall>i < length (EnabledChecks default_config 1).
         fst (None :: error option, 5 :: int64) = None
         \<and> \<not> budget (ConfigMaxDuration default_config) (EnabledChecks default_config 1 ! i)
               <s snd (None :: error option, 5 :: int64)"
    using ex_ok by (simp only: start_concat_Nil)
  from run_nil_or_summary [of gofmt_only 1 "\<lambda>i. (None, 2000000000)" 2500000000
      "[CheckTook ''gofmt'' 2000000000]" "Some (ChecksFailed 2500000000)"] ex_run
  have a: "Some (ChecksFailed 2500000000)
       = (if [CheckTook ''gofmt'' 2000000000] = [] then None else Some (ChecksFailed 2500000000))"
    by blast
  from run_nil_or_summary [of default_config 1 "\<lambda>i. (None, 5)" 15 "[]" None] ok
  have b: "run_returns default_config 1 (\<lambda>i. (None, 5)) 15 ([], None)"
    by blast
  from ex_run a l b show ?thesis by (intro conjI)
qed

text \<open>
  C10. The channel has room for one error per enabled check, and a check sends two when it
  fails and is over its budget. With gofmt alone enabled, failing after 2 seconds against a
  budget of 1, the goroutine has two sends for a channel of capacity 1: the second one
  blocks, \<^verbatim>\<open>wg.Wait()\<close> never returns and neither does the run.
\<close>

theorem two_sends_block:
  "EnabledChecks gofmt_only 1 = [\<lparr>GetName = ''gofmt'', GetRunLevel = 1, GetMaxDuration = 1\<rparr>]
   \<and> fst (start gofmt_only 1
            (\<lambda>i. (Some (ImproperlyFormatted ''gofmt -w -s .'' ''a.go''), 2000000000)))
       = [[ImproperlyFormatted ''gofmt -w -s .'' ''a.go'', CheckTook ''gofmt'' 2000000000]]
   \<and> run_blocks gofmt_only 1
        (\<lambda>i. (Some (ImproperlyFormatted ''gofmt -w -s .'' ''a.go''), 2000000000))
   \<and> \<not> (\<exists>duration r. run_returns gofmt_only 1
        (\<lambda>i. (Some (ImproperlyFormatted ''gofmt -w -s .'' ''a.go''), 2000000000)) duration r)"
proof -
  have s: "fst (start gofmt_only 1
            (\<lambda>i. (Some (ImproperlyFormatted ''gofmt -w -s .'' ''a.go''), 2000000000)))
       = [[ImproperlyFormatted ''gofmt -w -s .'' ''a.go'', CheckTook ''gofmt'' 2000000000]]"
    by code_simp
  have gt: "length (EnabledChecks gofmt_only 1)
              < length (concat (fst (start gofmt_only 1
                  (\<lambda>i. (Some (ImproperlyFormatted ''gofmt -w -s .'' ''a.go''), 2000000000)))))"
    by (simp add: s enabled_gofmt_only)
  then have b: "run_blocks gofmt_only 1
        (\<lambda>i. (Some (ImproperlyFormatted ''gofmt -w -s .'' ''a.go''), 2000000000))"
    by (rule run_blocks_iff [THEN iffD2])
  have n: "\<not> (\<exists>r. run_returns gofmt_only 1
        (\<lambda>i. (Some (ImproperlyFormatted ''gofmt -w -s .'' ''a.go''), 2000000000)) duration r)"
    for duration
    using gt by (simp only: run_returns_iff not_le)
  from enabled_gofmt_only s b n show ?thesis
    by blast
qed

section \<open>Properties: the enabled checks and the checks that wrap one tool\<close>

lemma EnabledChecks_iff:
  "k \<in> set (EnabledChecks c runLevel) \<longleftrightarrow> k \<in> set (AllChecks c) \<and> GetRunLevel k \<le> runLevel"
  by (simp add: EnabledChecks_def)

lemma runlevel_zero_always:
  "k \<in> set (AllChecks c) \<Longrightarrow> GetRunLevel k = 0 \<Longrightarrow> 0 \<le> runLevel \<Longrightarrow>
   k \<in> set (EnabledChecks c runLevel)"
  by (simp add: EnabledChecks_iff)

text \<open>
  C8. The enabled checks are those whose run level is at most the level of the run, so a
  check set to run level 0 is enabled at every level from 0 on: with golint set to 0, it is
  the only check of a run at level 0, and one of the checks of a run at level 1.
\<close>

theorem runlevel_zero_enabled:
  "EnabledChecks (default_config\<lparr>Golint := \<lparr>RunLevel = 0, MaxDuration = 0\<rparr>\<rparr>) 0
     = [\<lparr>GetName = ''golint'', GetRunLevel = 0, GetMaxDuration = 0\<rparr>]
   \<and> EnabledChecks (default_config\<lparr>Golint := \<lparr>RunLevel = 0, MaxDuration = 0\<rparr>\<rparr>) 1
     = [\<lparr>GetName = ''build'', GetRunLevel = 1, GetMaxDuration = 0\<rparr>,
        \<lparr>GetName = ''gofmt'', GetRunLevel = 1, GetMaxDuration = 0\<rparr>,
        \<lparr>GetName = ''test'', GetRunLevel = 1, GetMaxDuration = 0\<rparr>,
        \<lparr>GetName = ''golint'', GetRunLevel = 0, GetMaxDuration = 0\<rparr>]"
  by code_simp

lemma split_all_not_Nil: "split_all sep s \<noteq> []"
  by (induction s) (simp_all split: list.splits)

lemma lint_lines_eq: "lint_lines blacklist result ls = result @ ls"
  by (induction ls arbitrary: result) (simp_all add: Let_def)

lemma Golint_run_None: "Golint_run blacklist p = None"
proof -
  obtain out c e where cp: "capture p = (out, c, e)"
    by (cases "capture p") auto
  have "lint_lines blacklist [] (Split out (CHR 0x0A)) \<noteq> []"
    by (simp add: lint_lines_eq Split_def SplitN_def split_all_not_Nil)
  then show ?thesis
    by (simp add: Golint_run_def cp Let_def)
qed

lemma Govet_run_None: "Govet_run blacklist p = None"
  using Golint_run_None [of blacklist p] by (simp add: Golint_run_def Govet_run_def)

lemma Gofmt_run_iff:
  "Gofmt_run p = None \<longleftrightarrow> fst (capture p) = [] \<and> snd (snd (capture p)) = None"
  by (cases "capture p") (auto simp: Gofmt_run_def split: option.splits)

text \<open>
  C9. \<^verbatim>\<open>Golint.run\<close> and \<^verbatim>\<open>Govet.run\<close> return no error whatever the
  tool prints: the list of lines is never empty, and the error is returned only when it is.
  \<^verbatim>\<open>Gofmt.run\<close> returns no error when the tool exits with a code other than 0 and
  prints nothing.
\<close>

theorem lint_never_fails:
  "Golint_run [] (Exited ''a.go:1:1: exported function F should have comment or be unexported'' 0 None)
     = None
   \<and> Govet_run ['' composite literal uses unkeyed fields'']
        (Exited ''a.go:3: unreachable code'' 1 (Some (OSError ''exit status 1'')))
     = None
   \<and> Gofmt_run (Exited [] 2 (Some (OSError ''exit status 2''))) = None"
  by (simp add: Golint_run_None Govet_run_None Gofmt_run_def capture_def)

section \<open>Properties: the result of the coverage check\<close>

lemma fan_out_launch_failed: "fan_out [(dir, LaunchFailed e)] = [TestFailed dir []]"
  by (simp add: fan_out_def map_filter_simps)

lemma fan_out_exit: "fan_out [(dir, Exited out exitCode err)] = (if exitCode \<noteq> 0 then [TestFailed dir out] else [])"
  by (simp add: fan_out_def map_filter_simps)

lemma first_present_append:
  "first_present (xs @ ys) = (case first_present xs of Some e \<Rightarrow> Some e | None \<Rightarrow> first_present ys)"
  by (induction xs rule: first_present.induct) simp_all

lemma first_present_single: "first_present [x] = x"
  by (cases x) simp_all

lemma analyze_eq:
  "analyze w minimum pf errs profile =
     (case parse_summary pf (Return MalformedCoverage) (fst (capture (cover w profile))) of
        Inl (Return e) \<Rightarrow> Returns (Some e)
      | Inl (Crash p) \<Rightarrow> Panics p
      | Inr st \<Rightarrow>
          Returns (first_present
            [threshold minimum st,
             snd (snd (capture (cover w profile))),
             receive errs,
             if TRAVIS_JOB_ID w \<noteq> [] then snd (snd (capture (goveralls w profile))) else None]))"
  by (cases "capture (cover w profile)"; cases "capture (goveralls w profile)")
     (auto simp: analyze_def Let_def first_present_single
           split: sum.splits failure.splits option.splits)


lemma first_present_nested: "first_present [first_present xs, y] = first_present (xs @ [y])"
  by (simp add: first_present_append first_present_single split: option.splits)

lemma deferred_remove_Returns:
  "deferred_remove w (Returns x) = Returns (first_present [x, RemoveAll w])"
  by (cases x) (simp_all add: deferred_remove_def first_present_single)

lemma run_reaches_analysis:
  assumes "relToGOPATH w = Inr pkg" "tests w \<noteq> []" "TempDir w = Inr tmpDir"
    and "Glob w = Inr files" "files \<noteq> []" "merge_files [] files = Inr counts" "Create w = None"
  shows "TestCoverage_run w minimum pf =
           deferred_remove w (analyze w minimum pf (fan_out (tests w)) (emit_profile counts))"
    and "TestCoverage_run_old w minimum pf =
           analyze_old w minimum pf (fan_out (tests w)) (emit_profile counts)"
  using assms
  by (simp_all add: TestCoverage_run_def TestCoverage_run_old_def merge_and_emit_def Let_def)

lemma coverage_run_after_setup:
  assumes "relToGOPATH w = Inr pkg" "tests w \<noteq> []" "TempDir w = Inr tmpDir"
  shows "TestCoverage_run w minimum pf =
     (case Glob w of
        Inl e \<Rightarrow> Returns (Some e)
      | Inr files \<Rightarrow>
          if files = []
          then Returns (first_present [receive (fan_out (tests w)), Some NoCoverageFound])
          else
            (case merge_files [] files of
               Inl (Return e) \<Rightarrow> Returns (Some e)
             | Inl (Crash p) \<Rightarrow> Panics p
             | Inr counts \<Rightarrow>
                 (case Create w of
                    Some e \<Rightarrow> Returns (Some e)
                  | None \<Rightarrow>
                      (case parse_summary pf (Return MalformedCoverage)
                              (fst (capture (cover w (emit_profile counts)))) of
                         Inl (Return e) \<Rightarrow> Returns (Some e)
                       | Inl (Crash p) \<Rightarrow> Panics p
                       | Inr st \<Rightarrow>
                           Returns (first_present
                             [threshold minimum st,
                              snd (snd (capture (cover w (emit_profile counts)))),
                              receive (fan_out (tests w)),
                              if TRAVIS_JOB_ID w \<noteq> []
                              then snd (snd (capture (goveralls w (emit_profile counts))))
                              else None,
                              RemoveAll w])))))"
proof (cases "Glob w")
  case (Inl e)
  then show ?thesis
    using assms
    by (simp add: TestCoverage_run_def merge_and_emit_def deferred_remove_def Let_def)
next
  case (Inr files)
  show ?thesis
  proof (cases "files = []")
    case True
    then show ?thesis
      using assms Inr
      by (simp add: TestCoverage_run_def merge_and_emit_def deferred_remove_def Let_def
               split: option.splits)
  next
    case False
    show ?thesis
    proof (cases "merge_files [] files")
      case (Inl x)
      then show ?thesis
        using assms Inr False
        by (cases x)
           (simp_all add: TestCoverage_run_def merge_and_emit_def deferred_remove_def Let_def)
    next
      case merged: (Inr counts)
      show ?thesis
      proof (cases "Create w")
        case (Some e)
        then show ?thesis
          using assms Inr False merged
          by (simp add: TestCoverage_run_def merge_and_emit_def deferred_remove_def Let_def)
      next
        case None
        have run: "TestCoverage_run w minimum pf =
                deferred_remove w (analyze w minimum pf (fan_out (tests w)) (emit_profile counts))"
          using assms Inr False merged None by (rule run_reaches_analysis(1))
        show ?thesis
        proof (cases "parse_summary pf (Return MalformedCoverage)
                        (fst (capture (cover w (emit_profile counts))))")
          case (Inl x)
          then have "TestCoverage_run w minimum pf =
                       (case x of Return e \<Rightarrow> Returns (Some e) | Crash p \<Rightarrow> Panics p)"
            unfolding run analyze_eq by (cases x) (simp_all add: deferred_remove_def)
          then show ?thesis
            by (simp only: Inr False merged None Inl sum.case option.case if_False)
        next
          case summary: (Inr st)
          then have "TestCoverage_run w minimum pf =
                       Returns (first_present
                             [threshold minimum st,
                              snd (snd (capture (cover w (emit_profile counts)))),
                              receive (fan_out (tests w)),
                              if TRAVIS_JOB_ID w \<noteq> []
                              then snd (snd (capture (goveralls w (emit_profile counts))))
                              else None,
                              RemoveAll w])"
            unfolding run analyze_eq
            by (simp only: sum.case deferred_remove_Returns first_present_nested append.simps)
          then show ?thesis
            by (simp only: Inr False merged None summary sum.case option.case if_False)
        qed
      qed
    qed
  qed
qed

text \<open>
  The result of the current check, in full: an error that ends the run on the spot (the
  package path, the temporary directory, the glob, a profile that does not open or whose
  count does not parse, the creation of the merged profile, a percentage of the summary
  that does not parse); otherwise the first present of the threshold failure, the error of
  starting the summarizer, the first queued test failure, the error of starting the upload
  when the upload is on, and the error of removing the temporary directory. When no profile
  is found, the result is the first queued test failure, or else
  \<^verbatim>\<open>no coverage found\<close>.
\<close>

lemma coverage_run_result:
  "TestCoverage_run w minimum pf =
     (case relToGOPATH w of
        Inl e \<Rightarrow> Returns (Some e)
      | Inr pkg \<Rightarrow>
          if tests w = [] then Returns None
          else
     (case TempDir w of
        Inl e \<Rightarrow> Returns (Some e)
      | Inr tmpDir \<Rightarrow>
     (case Glob w of
        Inl e \<Rightarrow> Returns (Some e)
      | Inr files \<Rightarrow>
          if files = []
          then Returns (first_present [receive (fan_out (tests w)), Some NoCoverageFound])
          else
     (case merge_files [] files of
        Inl (Return e) \<Rightarrow> Returns (Some e)
      | Inl (Crash p) \<Rightarrow> Panics p
      | Inr counts \<Rightarrow>
     (case Create w of
        Some e \<Rightarrow> Returns (Some e)
      | None \<Rightarrow>
     (case parse_summary pf (Return MalformedCoverage)
             (fst (capture (cover w (emit_profile counts)))) of
        Inl (Return e) \<Rightarrow> Returns (Some e)
      | Inl (Crash p) \<Rightarrow> Panics p
      | Inr st \<Rightarrow>
          Returns (first_present
            [threshold minimum st,
             snd (snd (capture (cover w (emit_profile counts)))),
             receive (fan_out (tests w)),
             if TRAVIS_JOB_ID w \<noteq> []
             then snd (snd (capture (goveralls w (emit_profile counts))))
             else None,
             RemoveAll w])))))))"
proof (cases "relToGOPATH w")
  case (Inl e)
  then show ?thesis by (simp add: TestCoverage_run_def)
next
  case pkg: (Inr pkg)
  show ?thesis
  proof (cases "tests w = []")
    case True
    then show ?thesis by (simp add: TestCoverage_run_def pkg)
  next
    case False
    show ?thesis
    proof (cases "TempDir w")
      case (Inl e)
      then show ?thesis by (simp add: TestCoverage_run_def pkg False)
    next
      case (Inr tmpDir)
      from coverage_run_after_setup [OF pkg False Inr, of minimum pf]
      show ?thesis
        by (simp only: pkg False Inr sum.case if_False)
    qed
  qed
qed

text \<open>
  C5. An error of the summary step is to come before the threshold failure. When
  \<^verbatim>\<open>go tool cover\<close> cannot be started, \<^verbatim>\<open>capture\<close> returns its error with an
  empty output; the loop over the lines finds no total, the total stays 0, and
  \<^verbatim>\<open>if total < minimum\<close> assigns the threshold failure over that error without
  testing it, in both versions of the check. With a minimum of 20 the result is
  \<^verbatim>\<open>code coverage: 0.0%; 0 untested functions\<close> and the error of the start is lost;
  with a minimum of 0 it is the result.
\<close>

theorem threshold_masks_launch_error:
  "capture (cover (sample_env\<lparr>cover := (\<lambda>profile. LaunchFailed (OSError ''exec: go: not found''))\<rparr>)
              [''mode: count'', ''a.go:1.1,1.5 2 3''])
     = ([], -1, Some (OSError ''exec: go: not found''))
   \<and> TestCoverage_run
       (sample_env\<lparr>cover := (\<lambda>profile. LaunchFailed (OSError ''exec: go: not found''))\<rparr>)
       (Finite 20) sample_ParseFloat
     = Returns (Some (CoverageTooLow (Finite 0) 0))
   \<and> TestCoverage_run_old
       (sample_env\<lparr>cover := (\<lambda>profile. LaunchFailed (OSError ''exec: go: not found''))\<rparr>)
       (Finite 20) sample_ParseFloat
     = Returns (Some (CoverageTooLow (Finite 0) 0))
   \<and> TestCoverage_run
       (sample_env\<lparr>cover := (\<lambda>profile. LaunchFailed (OSError ''exec: go: not found''))\<rparr>)
       (Finite 0) sample_ParseFloat
     = Returns (Some (OSError ''exec: go: not found''))
   \<and> TestCoverage_run_old
       (sample_env\<lparr>cover := (\<lambda>profile. LaunchFailed (OSError ''exec: go: not found''))\<rparr>)
       (Finite 0) sample_ParseFloat
     = Returns (Some (OSError ''exec: go: not found''))"
  by code_simp





end
